theory Spec2Isabelle
  imports Complex_Main "HOL-Library.Word" "HOL-Library.Char_ord" "HOL-Library.List_Lexorder"
begin

section \<open>Data model (PriceData.h)\<close>

text \<open>
  A \<open>std::chrono\<close> time point is a tick count.  The type of the C++ \<open>double\<close> fields is the
  parameter \<open>'d\<close>: the buffer stores and copies these fields and never computes with them.
  The consumers compute with them in the arithmetic of the machine, which is a parameter of
  their definitions; the producer is stated for the real values of its doubles.  \<open>size_t\<close>
  is the 64-bit unsigned integer of the targets the build instructions name; its arithmetic
  wraps around.
\<close>

type_synonym time_point = nat
type_synonym size_t = "64 word"

record 'd PriceData =
  symbol :: string
  price :: 'd
  change :: 'd
  timestamp :: time_point

text \<open>The two constructors of \<open>PriceData\<close>; the second one reads the clock.\<close>

definition PriceData_default :: "'d::zero PriceData" where
  "PriceData_default = \<lparr>symbol = [], price = 0, change = 0, timestamp = 0\<rparr>"

definition PriceData_new :: "string \<Rightarrow> 'd \<Rightarrow> 'd \<Rightarrow> time_point \<Rightarrow> 'd PriceData" where
  "PriceData_new symb p c now = \<lparr>symbol = symb, price = p, change = c, timestamp = now\<rparr>"

section \<open>The containers used by SharedBuffer\<close>

text \<open>
  \<open>std::map\<close> keeps its entries ordered by key, one entry per key.  It is modelled as an
  association list in ascending key order: \<open>map_find\<close> is \<open>std::map::find\<close>, \<open>map_store\<close>
  writes the entry for a key (creating it at its place in the order when absent), and
  \<open>map_keys\<close> is the iteration order of a range-based \<open>for\<close> loop.
\<close>

type_synonym ('k, 'v) std_map = "('k \<times> 'v) list"

fun map_find :: "'k \<Rightarrow> ('k, 'v) std_map \<Rightarrow> 'v option" where
  "map_find k [] = None"
| "map_find k ((k', v) # m) = (if k = k' then Some v else map_find k m)"

fun map_store :: "'k::linorder \<Rightarrow> 'v \<Rightarrow> ('k, 'v) std_map \<Rightarrow> ('k, 'v) std_map" where
  "map_store k v [] = [(k, v)]"
| "map_store k v ((k', v') # m) =
     (if k = k' then (k, v) # m
      else if k < k' then (k, v) # (k', v') # m
      else (k', v') # map_store k v m)"

definition map_keys :: "('k, 'v) std_map \<Rightarrow> 'k list" where
  "map_keys m = map fst m"

text \<open>
  A \<open>std::deque\<close> is a list, oldest element first.  \<open>back()\<close> on an empty deque and
  \<open>operator[]\<close> out of range are undefined behaviour in C++; the model makes them faults.
\<close>

datatype fault = BackOfEmptyDeque | IndexOutOfRange

definition deque_back :: "'a list \<Rightarrow> fault + 'a" where
  "deque_back h = (if h = [] then Inl BackOfEmptyDeque else Inr (last h))"

definition deque_at :: "'a list \<Rightarrow> nat \<Rightarrow> fault + 'a" where
  "deque_at h i = (if i < length h then Inr (h ! i) else Inl IndexOutOfRange)"

section \<open>SharedBuffer\<close>

record 'd SharedBuffer =
  price_history :: "(string, 'd PriceData list) std_map"
  max_history_size :: size_t
  shutdown_flag :: bool
  total_writes :: size_t
  total_reads :: size_t

definition SharedBuffer_init :: "size_t \<Rightarrow> 'd SharedBuffer" where
  "SharedBuffer_init max_size =
     \<lparr>price_history = [], max_history_size = max_size, shutdown_flag = False,
      total_writes = 0, total_reads = 0\<rparr>"

text \<open>
  \<open>push\<close>: \<open>price_history_[data.symbol]\<close> finds the deque of the symbol or creates an empty
  one; the new element goes to the back; the front is dropped when the size exceeds the
  maximum; the write counter is incremented.  The size of a deque is a natural number
  below \<open>2 ^ 64\<close>, so it is compared with the value of the \<open>size_t\<close> bound.  This is the
  critical section of the method; the \<open>notify_all\<close> that follows it is in \<open>push_call\<close>, with
  the condition variable.
\<close>

definition push :: "'d PriceData \<Rightarrow> 'd SharedBuffer \<Rightarrow> 'd SharedBuffer" where
  "push data b =
     (let history = (case map_find (symbol data) (price_history b) of
                       None \<Rightarrow> [] | Some h \<Rightarrow> h);
          history = history @ [data];
          history = (if length history > unat (max_history_size b) then tl history else history)
      in b\<lparr>price_history := map_store (symbol data) history (price_history b),
           total_writes := total_writes b + 1\<rparr>)"

text \<open>
  \<open>getLatest\<close> returns the boolean, the value of the output parameter after the call and
  the buffer after the call.
\<close>

definition getLatest ::
  "string \<Rightarrow> 'd PriceData \<Rightarrow> 'd SharedBuffer \<Rightarrow> fault + (bool \<times> 'd PriceData \<times> 'd SharedBuffer)" where
  "getLatest symb data b =
     (case map_find symb (price_history b) of
        None \<Rightarrow> Inr (False, data, b)
      | Some h \<Rightarrow>
          if h \<noteq> [] then
            (case deque_back h of
               Inl f \<Rightarrow> Inl f
             | Inr d \<Rightarrow> Inr (True, d, b\<lparr>total_reads := total_reads b + 1\<rparr>))
          else Inr (False, data, b))"

text \<open>The copying loop of \<open>getHistory\<close>: \<open>for (i = start; i < history.size(); ++i)\<close>.\<close>

function getHistory_loop ::
  "'d PriceData list \<Rightarrow> nat \<Rightarrow> 'd PriceData list \<Rightarrow> fault + 'd PriceData list" where
  "getHistory_loop history i result =
     (if i < length history then
        (case deque_at history i of
           Inl f \<Rightarrow> Inl f
         | Inr d \<Rightarrow> getHistory_loop history (i + 1) (result @ [d]))
      else Inr result)"
  by pat_completeness auto
termination
  by (relation "measure (\<lambda>(history, i, result). length history - i)") auto

definition getHistory ::
  "string \<Rightarrow> size_t \<Rightarrow> 'd SharedBuffer \<Rightarrow> fault + ('d PriceData list \<times> 'd SharedBuffer)" where
  "getHistory symb count b =
     (case map_find symb (price_history b) of
        None \<Rightarrow> Inr ([], b)
      | Some history \<Rightarrow>
          (let start = (if length history > unat count then length history - unat count else 0)
           in case getHistory_loop history start [] of
                Inl f \<Rightarrow> Inl f
              | Inr result \<Rightarrow> Inr (result, b\<lparr>total_reads := total_reads b + 1\<rparr>)))"

text \<open>
  \<open>std::condition_variable::wait_for\<close> with a predicate is, by the C++ standard,
  \<^verbatim>\<open>while (!pred()) if (wait_until(lock, deadline) == cv_status::timeout) return pred();
  return true;\<close>
  Each return of the inner \<open>wait_until\<close> is one wake-up: its status, and the buffer as the
  thread finds it once it holds the lock again (other threads ran in between).  The
  wake-ups that the environment delivers are a list; which of them are timeouts is the
  environment's answer to the deadline.  The result carries the wake-ups not consumed, so
  a call that never blocks returns the list it was given.  \<open>None\<close>: the thread is still
  blocked when the list ends.
\<close>

datatype cv_status = no_timeout | timeout

type_synonym 'd wakeups = "(cv_status \<times> 'd SharedBuffer) list"

fun wait_for ::
  "('d SharedBuffer \<Rightarrow> bool) \<Rightarrow> 'd SharedBuffer \<Rightarrow> 'd wakeups \<Rightarrow> (bool \<times> 'd SharedBuffer \<times> 'd wakeups) option" where
  "wait_for pred b [] = (if pred b then Some (True, b, []) else None)"
| "wait_for pred b ((st, b') # ws) =
     (if pred b then Some (True, b, (st, b') # ws)
      else if st = timeout then Some (pred b', b', ws)
      else wait_for pred b' ws)"

definition wake_predicate :: "'d SharedBuffer \<Rightarrow> bool" where
  "wake_predicate b = (shutdown_flag b \<or> total_writes b > 0)"

definition waitForData ::
  "int \<Rightarrow> 'd SharedBuffer \<Rightarrow> 'd wakeups \<Rightarrow> (bool \<times> 'd SharedBuffer \<times> 'd wakeups) option" where
  "waitForData timeout_ms b ws = wait_for wake_predicate b ws"

definition getSymbols :: "'d SharedBuffer \<Rightarrow> string list" where
  "getSymbols b = map_keys (price_history b)"

text \<open>
  The critical section of \<open>shutdown\<close>, which sets the flag; the \<open>notify_all\<close> that follows it
  is in \<open>shutdown_call\<close>, with the condition variable.
\<close>

definition shutdown :: "'d SharedBuffer \<Rightarrow> 'd SharedBuffer" where
  "shutdown b = b\<lparr>shutdown_flag := True\<rparr>"

definition isShutdown :: "'d SharedBuffer \<Rightarrow> bool" where
  "isShutdown b = shutdown_flag b"

definition getStats :: "'d SharedBuffer \<Rightarrow> size_t \<times> size_t" where
  "getStats b = (total_writes b, total_reads b)"


section \<open>Runs of the buffer\<close>

text \<open>A run of the producer alone: the pushes in call order.\<close>

fun pushes :: "'d PriceData list \<Rightarrow> 'd SharedBuffer \<Rightarrow> 'd SharedBuffer" where
  "pushes [] b = b"
| "pushes (d # ds) b = pushes ds (push d b)"

text \<open>The deque of a symbol as a list; empty when the symbol has no entry in the map.\<close>

definition history_of :: "string \<Rightarrow> 'd SharedBuffer \<Rightarrow> 'd PriceData list" where
  "history_of k b = (case map_find k (price_history b) of None \<Rightarrow> [] | Some h \<Rightarrow> h)"

text \<open>
  The public operations of the buffer.  The mutex serialises them, so a run is a list of
  calls in the order in which they held the lock.  During a serialised \<open>waitForData\<close> no
  other call runs: its only wake-up is the timeout, with the buffer as it was.
\<close>

datatype 'd operation =
    Push "'d PriceData"
  | GetLatest string "'d PriceData"
  | GetHistory string size_t
  | WaitForData int
  | GetSymbols
  | Shutdown
  | IsShutdown
  | GetStats

fun exec :: "'d operation \<Rightarrow> 'd SharedBuffer \<Rightarrow> fault + 'd SharedBuffer" where
  "exec (Push d) b = Inr (push d b)"
| "exec (GetLatest k out) b =
     (case getLatest k out b of Inl f \<Rightarrow> Inl f | Inr (found, d, b') \<Rightarrow> Inr b')"
| "exec (GetHistory k n) b =
     (case getHistory k n b of Inl f \<Rightarrow> Inl f | Inr (result, b') \<Rightarrow> Inr b')"
| "exec (WaitForData t) b =
     (case waitForData t b [(timeout, b)] of None \<Rightarrow> Inr b | Some (signalled, b', ws) \<Rightarrow> Inr b')"
| "exec GetSymbols b = Inr b"
| "exec Shutdown b = Inr (shutdown b)"
| "exec IsShutdown b = Inr b"
| "exec GetStats b = Inr b"

fun run :: "'d operation list \<Rightarrow> 'd SharedBuffer \<Rightarrow> fault + 'd SharedBuffer" where
  "run [] b = Inr b"
| "run (x # xs) b = (case exec x b of Inl f \<Rightarrow> Inl f | Inr b' \<Rightarrow> run xs b')"

text \<open>
  What the specification counts over a run that starts in \<open>b\<close>: the \<open>push\<close> calls, the
  \<open>getLatest\<close> and \<open>getHistory\<close> calls whose key is in the map when they are made, and
  the calls that the code counts (a \<open>getLatest\<close> that returns true, a \<open>getHistory\<close>
  whose key is in the map).
\<close>

definition key_known :: "string \<Rightarrow> 'd SharedBuffer \<Rightarrow> bool" where
  "key_known k b = (map_find k (price_history b) \<noteq> None)"

fun is_push :: "'d operation \<Rightarrow> bool" where
  "is_push (Push d) = True"
| "is_push x = False"

definition push_calls :: "'d operation list \<Rightarrow> nat" where
  "push_calls xs = length (filter is_push xs)"

fun reads_key_known :: "'d operation \<Rightarrow> 'd SharedBuffer \<Rightarrow> bool" where
  "reads_key_known (GetLatest k out) b = key_known k b"
| "reads_key_known (GetHistory k n) b = key_known k b"
| "reads_key_known x b = False"

fun reads_counted :: "'d operation \<Rightarrow> 'd SharedBuffer \<Rightarrow> bool" where
  "reads_counted (GetLatest k out) b =
     (case getLatest k out b of Inr (found, d, b') \<Rightarrow> found | Inl f \<Rightarrow> False)"
| "reads_counted (GetHistory k n) b = key_known k b"
| "reads_counted x b = False"

fun calls_where ::
  "('d operation \<Rightarrow> 'd SharedBuffer \<Rightarrow> bool) \<Rightarrow> 'd operation list \<Rightarrow> 'd SharedBuffer \<Rightarrow> nat" where
  "calls_where P [] b = 0"
| "calls_where P (x # xs) b =
     (if P x b then 1 else 0) +
     (case exec x b of Inl f \<Rightarrow> 0 | Inr b' \<Rightarrow> calls_where P xs b')"

text \<open>The observations that a run pushes, in push order.\<close>

fun pushed_data :: "'d operation list \<Rightarrow> 'd PriceData list" where
  "pushed_data [] = []"
| "pushed_data (Push d # xs) = d # pushed_data xs"
| "pushed_data (x # xs) = pushed_data xs"

text \<open>No entry of the map holds an empty deque.\<close>

definition histories_nonempty :: "'d SharedBuffer \<Rightarrow> bool" where
  "histories_nonempty b = list_all (\<lambda>(k, h). h \<noteq> []) (price_history b)"

section \<open>The condition variable\<close>

text \<open>
  \<open>push\<close> and \<open>shutdown\<close> above are the critical sections of the two methods.  Both methods
  then call \<open>cv_data_ready_.notify_all()\<close>, which unblocks every thread that is blocked in
  a wait on the condition variable.  A thread inside \<open>waitForData\<close> is in one of three
  states: blocked in the wait; woken, with the status that its wait will return, and not
  yet holding the lock again; or returned from \<open>waitForData\<close> with a result.  The monitor
  is the buffer together with the threads that have called \<open>waitForData\<close>, in call order.
\<close>

datatype waiter = Blocked | Woken cv_status | Returned bool

record 'd monitor =
  shared :: "'d SharedBuffer"
  waiters :: "waiter list"

definition notify_all :: "'d monitor \<Rightarrow> 'd monitor" where
  "notify_all m =
     m\<lparr>waiters := map (\<lambda>w. if w = Blocked then Woken no_timeout else w) (waiters m)\<rparr>"

text \<open>The two methods as a whole: the critical section, then the notification.\<close>

definition push_call :: "'d PriceData \<Rightarrow> 'd monitor \<Rightarrow> 'd monitor" where
  "push_call data m = notify_all (m\<lparr>shared := push data (shared m)\<rparr>)"

definition shutdown_call :: "'d monitor \<Rightarrow> 'd monitor" where
  "shutdown_call m = notify_all (m\<lparr>shared := shutdown (shared m)\<rparr>)"

text \<open>
  A thread calls \<open>waitForData\<close>: it returns true at once when the predicate holds and
  blocks otherwise.  A woken thread takes the lock again: after a timeout it returns the
  value of the predicate; otherwise it goes round the loop, returns true when the
  predicate holds and blocks again when it does not.  A blocked thread is also woken by
  its deadline (status \<open>timeout\<close>) and may be woken spuriously (status \<open>no_timeout\<close>).
\<close>

definition waitForData_call :: "int \<Rightarrow> 'd monitor \<Rightarrow> 'd monitor" where
  "waitForData_call timeout_ms m =
     m\<lparr>waiters := waiters m @ [if wake_predicate (shared m) then Returned True else Blocked]\<rparr>"

definition resume :: "nat \<Rightarrow> 'd monitor \<Rightarrow> 'd monitor" where
  "resume i m =
     (if i < length (waiters m) then
        (case waiters m ! i of
           Woken st \<Rightarrow>
             m\<lparr>waiters := (waiters m)
                 [i := if st = timeout then Returned (wake_predicate (shared m))
                       else if wake_predicate (shared m) then Returned True
                       else Blocked]\<rparr>
         | Blocked \<Rightarrow> m
         | Returned r \<Rightarrow> m)
      else m)"

definition wake :: "cv_status \<Rightarrow> nat \<Rightarrow> 'd monitor \<Rightarrow> 'd monitor" where
  "wake st i m =
     (if i < length (waiters m) \<and> waiters m ! i = Blocked
      then m\<lparr>waiters := (waiters m)[i := Woken st]\<rparr> else m)"

text \<open>
  What can happen to a monitor: a call of a buffer method by some thread, a new call of
  \<open>waitForData\<close>, a woken thread taking the lock, a deadline passing or a spurious wake-up.
\<close>

datatype 'd event = Call "'d operation" | Enter int | Resume nat | Wake cv_status nat

fun step :: "'d event \<Rightarrow> 'd monitor \<Rightarrow> 'd monitor" where
  "step (Call (Push d)) m = push_call d m"
| "step (Call Shutdown) m = shutdown_call m"
| "step (Call x) m = (case exec x (shared m) of Inl f \<Rightarrow> m | Inr b \<Rightarrow> m\<lparr>shared := b\<rparr>)"
| "step (Enter t) m = waitForData_call t m"
| "step (Resume i) m = resume i m"
| "step (Wake st i) m = wake st i m"

fun steps :: "'d event list \<Rightarrow> 'd monitor \<Rightarrow> 'd monitor" where
  "steps [] m = m"
| "steps (e # es) m = steps es (step e m)"

section \<open>The statistics of the consumers\<close>

text \<open>
  The consumers compute with doubles.  The arithmetic of the machine is a parameter of
  their definitions: the operations that the code applies, the double that a literal of
  the source denotes (or that is nearest to a real number), and the conversion of a
  \<open>size_t\<close> to a double.  The definitions assume nothing about these operations, so what
  is proved of them holds for the doubles of any machine, whatever a division by zero, an
  overflow or a rounding yields there.
\<close>

record 'd double_ops =
  fadd :: "'d \<Rightarrow> 'd \<Rightarrow> 'd"
  fsub :: "'d \<Rightarrow> 'd \<Rightarrow> 'd"
  fmul :: "'d \<Rightarrow> 'd \<Rightarrow> 'd"
  fdiv :: "'d \<Rightarrow> 'd \<Rightarrow> 'd"
  fsqrt :: "'d \<Rightarrow> 'd"
  flt :: "'d \<Rightarrow> 'd \<Rightarrow> bool"
  dbl :: "real \<Rightarrow> 'd"
  of_size :: "nat \<Rightarrow> 'd"

text \<open>
  The body that \<open>SMACalculator::run\<close> executes for one symbol, on the vector that
  \<open>getHistory\<close> returned: \<open>None\<close> is the \<open>continue\<close> of a window that is too short,
  otherwise the mean and the deviation of the newest price from it.
\<close>

fun sum_prices :: "'d double_ops \<Rightarrow> 'd PriceData list \<Rightarrow> 'd \<Rightarrow> 'd" where
  "sum_prices A [] acc = acc"
| "sum_prices A (data # history) acc = sum_prices A history (fadd A acc (price data))"

definition SMACalculator_calc :: "'d double_ops \<Rightarrow> 'd PriceData list \<Rightarrow> ('d \<times> 'd) option" where
  "SMACalculator_calc A history =
     (if length history < 2 then None
      else
        (let price_sum = sum_prices A history (dbl A 0);
             sma = fdiv A price_sum (of_size A (length history));
             latest_price = price (last history);
             deviation = fmul A (fdiv A (fsub A latest_price sma) sma) (dbl A 100)
         in Some (sma, deviation)))"

text \<open>
  The body of \<open>VolatilityCalculator::run\<close> for one symbol: the returns loop
  \<open>for (i = 1; i < history.size(); ++i)\<close>, \<open>std::accumulate\<close>, the variance loop, the
  annualisation and the classification.
\<close>

datatype volatility_level = LOW | MODERATE | HIGH

function returns_loop :: "'d double_ops \<Rightarrow> 'd PriceData list \<Rightarrow> nat \<Rightarrow> 'd list \<Rightarrow> 'd list" where
  "returns_loop A history i returns =
     (if i < length history then
        (let return_pct =
               fdiv A (fsub A (price (history ! i)) (price (history ! (i - 1))))
                 (price (history ! (i - 1)))
         in returns_loop A history (i + 1) (returns @ [return_pct]))
      else returns)"
  by pat_completeness auto
termination
  by (relation "measure (\<lambda>(A, history, i, returns). length history - i)") auto

fun accumulate :: "'d double_ops \<Rightarrow> 'd list \<Rightarrow> 'd \<Rightarrow> 'd" where
  "accumulate A [] init = init"
| "accumulate A (x # xs) init = accumulate A xs (fadd A init x)"

fun variance_loop :: "'d double_ops \<Rightarrow> 'd list \<Rightarrow> 'd \<Rightarrow> 'd \<Rightarrow> 'd" where
  "variance_loop A [] mean_return variance = variance"
| "variance_loop A (ret # returns) mean_return variance =
     variance_loop A returns mean_return
       (fadd A variance (fmul A (fsub A ret mean_return) (fsub A ret mean_return)))"

definition classify :: "'d double_ops \<Rightarrow> 'd \<Rightarrow> volatility_level" where
  "classify A annualized_volatility =
     (if flt A annualized_volatility (dbl A 15) then LOW
      else if flt A annualized_volatility (dbl A 30) then MODERATE
      else HIGH)"

definition VolatilityCalculator_calc ::
  "'d double_ops \<Rightarrow> 'd PriceData list \<Rightarrow> ('d \<times> volatility_level) option" where
  "VolatilityCalculator_calc A history =
     (if length history < 3 then None
      else
        (let returns = returns_loop A history 1 [];
             mean_return = fdiv A (accumulate A returns (dbl A 0)) (of_size A (length returns));
             variance = variance_loop A returns mean_return (dbl A 0);
             variance = fdiv A variance (of_size A (length returns));
             volatility = fsqrt A variance;
             annualized_volatility = fmul A (fmul A volatility (fsqrt A (dbl A 252))) (dbl A 100)
         in Some (annualized_volatility, classify A annualized_volatility)))"

text \<open>
  The specification's wording of the two statistics, in the same arithmetic: a sum is
  taken from 0 in the order of the window; the mean is the sum divided by the number of
  values; the per-step returns are \<open>(v[i] - v[i-1]) / v[i-1]\<close>; the population standard
  deviation is the square root of the mean of the squared differences from the mean; the
  volatility is that deviation times \<open>sqrt 252\<close>, as a percentage.
\<close>

definition spec_sum :: "'d double_ops \<Rightarrow> 'd list \<Rightarrow> 'd" where
  "spec_sum A xs = foldl (fadd A) (dbl A 0) xs"

definition spec_mean :: "'d double_ops \<Rightarrow> 'd list \<Rightarrow> 'd" where
  "spec_mean A xs = fdiv A (spec_sum A xs) (of_size A (length xs))"

definition spec_returns :: "'d double_ops \<Rightarrow> 'd list \<Rightarrow> 'd list" where
  "spec_returns A v = map (\<lambda>i. fdiv A (fsub A (v ! i) (v ! (i - 1))) (v ! (i - 1))) [1..<length v]"

definition population_stddev :: "'d double_ops \<Rightarrow> 'd list \<Rightarrow> 'd" where
  "population_stddev A xs =
     fsqrt A (fdiv A
       (spec_sum A (map (\<lambda>x. fmul A (fsub A x (spec_mean A xs)) (fsub A x (spec_mean A xs))) xs))
       (of_size A (length xs)))"

definition spec_volatility :: "'d double_ops \<Rightarrow> 'd list \<Rightarrow> 'd" where
  "spec_volatility A v =
     fmul A (fmul A (population_stddev A (spec_returns A v)) (fsqrt A (dbl A 252))) (dbl A 100)"

text \<open>A window with the given prices, as doubles.\<close>

definition priced :: "'d double_ops \<Rightarrow> real list \<Rightarrow> 'd PriceData list" where
  "priced A v = map (\<lambda>p. PriceData_new ''X'' (dbl A p) (dbl A 0) 0) v"

text \<open>
  What IEEE 754 binary64 arithmetic with rounding to nearest guarantees of the
  operations, for the doubles that are finite (\<open>fin\<close>) and their values (\<open>val\<close>).  The
  result of an operation on finite doubles is the exact result \<open>x\<close> of the operation on
  their values, rounded: when \<open>x\<close> is itself the value of a finite double, the result is
  finite and has the value \<open>x\<close>; when \<open>x\<close> is in the range of the normal doubles, the result
  is finite and differs from \<open>x\<close> by at most \<open>x / 2 ^ 53\<close> in magnitude.
\<close>

definition correctly_rounded :: "('d \<Rightarrow> bool) \<Rightarrow> ('d \<Rightarrow> real) \<Rightarrow> real \<Rightarrow> 'd \<Rightarrow> bool" where
  "correctly_rounded fin val x r =
     ((\<forall>c. fin c \<and> val c = x \<longrightarrow> fin r \<and> val r = x) \<and>
      (1 / 2 ^ 1022 \<le> \<bar>x\<bar> \<and> \<bar>x\<bar> \<le> 2 ^ 1023 \<longrightarrow> fin r \<and> \<bar>val r - x\<bar> \<le> \<bar>x\<bar> / 2 ^ 53))"

text \<open>
  Division is by a double whose value is not 0, and the square root is of a double whose
  value is not negative.  A comparison of finite doubles compares their values.  A
  number \<open>k / 2 ^ j\<close> with an integer \<open>k\<close> of magnitude at most \<open>2 ^ 53\<close> and \<open>j \<le> 1022\<close> is the
  value of a finite double, and so is a \<open>size_t\<close> of at most \<open>2 ^ 53\<close>.
\<close>

definition ieee_double :: "'d double_ops \<Rightarrow> ('d \<Rightarrow> bool) \<Rightarrow> ('d \<Rightarrow> real) \<Rightarrow> bool" where
  "ieee_double A fin val =
     ((\<forall>a b. fin a \<and> fin b \<longrightarrow> correctly_rounded fin val (val a + val b) (fadd A a b)) \<and>
      (\<forall>a b. fin a \<and> fin b \<longrightarrow> correctly_rounded fin val (val a - val b) (fsub A a b)) \<and>
      (\<forall>a b. fin a \<and> fin b \<longrightarrow> correctly_rounded fin val (val a * val b) (fmul A a b)) \<and>
      (\<forall>a b. fin a \<and> fin b \<and> val b \<noteq> 0 \<longrightarrow>
         correctly_rounded fin val (val a / val b) (fdiv A a b)) \<and>
      (\<forall>a. fin a \<and> 0 \<le> val a \<longrightarrow> correctly_rounded fin val (sqrt (val a)) (fsqrt A a)) \<and>
      (\<forall>a b. fin a \<and> fin b \<longrightarrow> flt A a b = (val a < val b)) \<and>
      (\<forall>k j. \<bar>k\<bar> \<le> 2 ^ 53 \<and> j \<le> 1022 \<longrightarrow>
         fin (dbl A (real_of_int k / 2 ^ j)) \<and> val (dbl A (real_of_int k / 2 ^ j)) = real_of_int k / 2 ^ j) \<and>
      (\<forall>n. n \<le> 2 ^ 53 \<longrightarrow> fin (of_size A n) \<and> val (of_size A n) = real n))"

text \<open>Exact arithmetic on the real numbers, which is one such arithmetic.\<close>

definition real_ops :: "real double_ops" where
  "real_ops =
     \<lparr>fadd = (+), fsub = (-), fmul = (*), fdiv = (/), fsqrt = sqrt, flt = (<),
      dbl = (\<lambda>x. x), of_size = real\<rparr>"

section \<open>The producer (PriceGenerator) and the metrics it reports to\<close>

text \<open>
  Of \<open>PerformanceMonitor\<close>, the members that \<open>recordGeneration\<close> reads or writes, and the
  two counters.
\<close>

record PerformanceMonitor =
  generation_times :: "(string, time_point) std_map"
  start_time :: time_point
  total_generations :: size_t
  total_calculations :: size_t

definition PerformanceMonitor_init :: "time_point \<Rightarrow> PerformanceMonitor" where
  "PerformanceMonitor_init now =
     \<lparr>generation_times = [], start_time = now, total_generations = 0, total_calculations = 0\<rparr>"

definition recordGeneration :: "string \<Rightarrow> time_point \<Rightarrow> PerformanceMonitor \<Rightarrow> PerformanceMonitor" where
  "recordGeneration symb ts m =
     m\<lparr>generation_times := map_store symb ts (generation_times m),
       total_generations := total_generations m + 1\<rparr>"

text \<open>
  The random engine is a position in the sequence of values that the distribution
  yields: \<open>noise k\<close> is the value of draw number \<open>k\<close> of \<open>price_change_dist_\<close>, and
  \<open>clock k\<close> the instant at which the observation of that draw is constructed.  Both
  sequences are arbitrary.  The constructor sizes \<open>current_prices_\<close> to \<open>symbols_\<close> and
  fills it from the initial distribution.
\<close>

record PriceGenerator =
  symbols :: "string list"
  current_prices :: "real list"
  draws :: nat

definition PriceGenerator_init :: "string list \<Rightarrow> (nat \<Rightarrow> real) \<Rightarrow> PriceGenerator" where
  "PriceGenerator_init syms init_price =
     \<lparr>symbols = syms, current_prices = map init_price [0..<length syms], draws = 0\<rparr>"

text \<open>
  The producer thread works on the buffer and the monitor it holds references to.  The
  calls it makes on them are also kept in call order.
\<close>

datatype call = Call_push "real PriceData" | Call_recordGeneration string time_point

record producer =
  generator :: PriceGenerator
  buffer :: "real SharedBuffer"
  perf_monitor :: PerformanceMonitor
  calls :: "call list"

text \<open>
  The loop \<open>for (i = 0; i < symbols_.size(); ++i)\<close> of \<open>PriceGenerator::run\<close>.  Indexing
  \<open>current_prices_\<close> out of range is undefined behaviour, here a fault.
\<close>

function symbols_loop ::
  "(nat \<Rightarrow> real) \<Rightarrow> (nat \<Rightarrow> time_point) \<Rightarrow> nat \<Rightarrow> producer \<Rightarrow> fault + producer" where
  "symbols_loop noise clock i w =
     (if i < length (symbols (generator w)) then
        (if i < length (current_prices (generator w)) then
           (let g = generator w;
                change = noise (draws g);
                p = current_prices g ! i + change;
                p = (if p < 1 then 1 else p);
                data = PriceData_new (symbols g ! i) p change (clock (draws g))
            in symbols_loop noise clock (i + 1)
                 (w\<lparr>generator := g\<lparr>current_prices := (current_prices g)[i := p],
                                   draws := draws g + 1\<rparr>,
                    buffer := push data (buffer w),
                    perf_monitor := recordGeneration (symbols g ! i) (timestamp data) (perf_monitor w),
                    calls := calls w @ [Call_push data,
                                        Call_recordGeneration (symbols g ! i) (timestamp data)]\<rparr>))
         else Inl IndexOutOfRange)
      else Inr w)"
  by pat_completeness auto
termination
  by (relation "measure (\<lambda>(noise, clock, i, w). length (symbols (generator w)) - i)")
    (auto simp: Let_def)

text \<open>
  \<open>while (running_.load())\<close>: the number of iterations is the number of times the flag
  was found set.
\<close>

fun PriceGenerator_run ::
  "(nat \<Rightarrow> real) \<Rightarrow> (nat \<Rightarrow> time_point) \<Rightarrow> nat \<Rightarrow> producer \<Rightarrow> fault + producer" where
  "PriceGenerator_run noise clock 0 w = Inr w"
| "PriceGenerator_run noise clock (Suc n) w =
     (case symbols_loop noise clock 0 w of
        Inl f \<Rightarrow> Inl f
      | Inr w' \<Rightarrow> PriceGenerator_run noise clock n w')"

text \<open>
  A call sequence in which every \<open>push\<close> carries a price of at least 1 and is followed at
  once by the \<open>recordGeneration\<close> of the same symbol and instant.
\<close>

fun push_then_record :: "call list \<Rightarrow> bool" where
  "push_then_record [] = True"
| "push_then_record (Call_push d # Call_recordGeneration k t # cs) =
     (k = symbol d \<and> t = timestamp d \<and> 1 \<le> price d \<and> push_then_record cs)"
| "push_then_record cs = False"

text \<open>The observations that a call sequence pushes, in call order.\<close>

fun pushes_of :: "call list \<Rightarrow> real PriceData list" where
  "pushes_of [] = []"
| "pushes_of (Call_push d # cs) = d # pushes_of cs"
| "pushes_of (Call_recordGeneration k t # cs) = pushes_of cs"


section \<open>Facts about the containers\<close>

declare getHistory_loop.simps [simp del]
declare returns_loop.simps [simp del]
declare symbols_loop.simps [simp del]

lemma map_find_store:
  "map_find k' (map_store k v m) = (if k' = k then Some v else map_find k' m)"
  by (induction k v m rule: map_store.induct) auto

lemma set_map_keys_store:
  "set (map_keys (map_store k v m)) = insert k (set (map_keys m))"
  by (induction k v m rule: map_store.induct) (auto simp: map_keys_def)

lemma map_find_None_iff: "map_find k m = None \<longleftrightarrow> k \<notin> set (map_keys m)"
  by (induction k m rule: map_find.induct) (auto simp: map_keys_def)

lemma sorted_map_keys_store:
  "sorted_wrt (<) (map_keys m) \<Longrightarrow> sorted_wrt (<) (map_keys (map_store k v m))"
proof (induction k v m rule: map_store.induct)
  case (1 k v)
  then show ?case by (simp add: map_keys_def)
next
  case (2 k v k' v' m)
  have keys: "set (map fst (map_store k v m)) = insert k (set (map fst m))"
    using set_map_keys_store [of k v m] by (simp add: map_keys_def)
  from 2 show ?case
    by (auto simp: map_keys_def keys simp del: set_map)
qed

lemma getHistory_loop_drop:
  "i \<le> length h \<Longrightarrow> getHistory_loop h i r = Inr (r @ drop i h)"
proof (induction h i r rule: getHistory_loop.induct)
  case (1 history i result)
  show ?case
  proof (cases "i < length history")
    case True
    then have "getHistory_loop history i result =
        getHistory_loop history (i + 1) (result @ [history ! i])"
      by (subst getHistory_loop.simps) (simp add: deque_at_def)
    also have "\<dots> = Inr ((result @ [history ! i]) @ drop (i + 1) history)"
      using True by (intro "1.IH") (simp_all add: deque_at_def)
    also have "(result @ [history ! i]) @ drop (i + 1) history = result @ drop i history"
      using True by (simp add: Cons_nth_drop_Suc)
    finally show ?thesis .
  next
    case False
    with "1.prems" show ?thesis by (subst getHistory_loop.simps) simp
  qed
qed

section \<open>Facts about push and the read operations\<close>

lemma getHistory_known:
  "map_find k (price_history b) = Some h \<Longrightarrow>
   getHistory k c b = Inr (drop (length h - unat c) h, b\<lparr>total_reads := total_reads b + 1\<rparr>)"
proof -
  assume known: "map_find k (price_history b) = Some h"
  let ?start = "if length h > unat c then length h - unat c else 0"
  have "getHistory_loop h ?start [] = Inr ([] @ drop ?start h)"
    by (rule getHistory_loop_drop) simp
  moreover have "drop ?start h = drop (length h - unat c) h"
    by simp
  ultimately show ?thesis
    using known by (simp add: getHistory_def Let_def)
qed

lemma getHistory_unknown:
  "map_find k (price_history b) = None \<Longrightarrow> getHistory k c b = Inr ([], b)"
  by (simp add: getHistory_def)

lemma max_history_size_push: "max_history_size (push d b) = max_history_size b"
  by (simp add: push_def Let_def)

lemma max_history_size_pushes: "max_history_size (pushes ds b) = max_history_size b"
  by (induction ds arbitrary: b) (simp_all add: max_history_size_push)

lemma pushes_snoc: "pushes (ds @ [d]) b = push d (pushes ds b)"
  by (induction ds arbitrary: b) simp_all

lemma map_find_push:
  "map_find k (price_history (push d b)) =
     (if k = symbol d then
        Some (if length (history_of k b) < unat (max_history_size b)
              then history_of k b @ [d] else tl (history_of k b @ [d]))
      else map_find k (price_history b))"
  by (auto simp: push_def Let_def map_find_store history_of_def split: option.splits)

lemma history_of_push:
  "history_of k (push d b) =
     (if k = symbol d then
        (if length (history_of k b) < unat (max_history_size b)
         then history_of k b @ [d] else tl (history_of k b @ [d]))
      else history_of k b)"
  by (simp add: history_of_def [of k "push d b"] map_find_push) (simp add: history_of_def)

lemma last_elements_snoc:
  "(if length (drop (length f - n) f) < n then drop (length f - n) f @ [d]
    else tl (drop (length f - n) f @ [d])) = drop (length (f @ [d]) - n) (f @ [d])"
proof (cases "length f < n")
  case True
  then show ?thesis by simp
next
  case False
  then have le: "n \<le> length f" by simp
  show ?thesis
  proof (cases "n = 0")
    case True
    then show ?thesis by simp
  next
    case False
    with le have ne: "drop (length f - n) f \<noteq> []" by simp
    have "tl (drop (length f - n) f @ [d]) = tl (drop (length f - n) f) @ [d]"
      using ne by simp
    also have "tl (drop (length f - n) f) = drop (Suc (length f - n)) f"
      by (simp add: drop_Suc tl_drop)
    also have "Suc (length f - n) = length (f @ [d]) - n"
      using le by simp
    finally show ?thesis using le False by simp
  qed
qed

lemma map_find_pushes_init:
  "map_find k (price_history (pushes ds (SharedBuffer_init N))) =
     (let f = filter (\<lambda>d. symbol d = k) ds
      in if f = [] then None else Some (drop (length f - unat N) f))"
proof (induction ds rule: rev_induct)
  case Nil
  show ?case by (simp add: SharedBuffer_init_def)
next
  case (snoc d ds)
  let ?b = "pushes ds (SharedBuffer_init N)"
  let ?f = "filter (\<lambda>d. symbol d = k) ds"
  have cap: "max_history_size ?b = N"
    by (simp add: max_history_size_pushes SharedBuffer_init_def)
  have hist: "history_of k ?b = drop (length ?f - unat N) ?f"
    using snoc.IH by (simp add: history_of_def Let_def)
  show ?case
  proof (cases "symbol d = k")
    case True
    have "map_find k (price_history (push d ?b)) =
        Some (if length (history_of k ?b) < unat N then history_of k ?b @ [d]
              else tl (history_of k ?b @ [d]))"
      using True by (simp add: map_find_push cap)
    also have "\<dots> = Some (drop (length (?f @ [d]) - unat N) (?f @ [d]))"
      unfolding hist by (simp only: last_elements_snoc)
    finally show ?thesis using True by (simp add: pushes_snoc Let_def)
  next
    case False
    then show ?thesis using snoc.IH by (simp add: pushes_snoc map_find_push Let_def)
  qed
qed

lemma history_of_pushes_init:
  "history_of k (pushes ds (SharedBuffer_init N)) =
     drop (length (filter (\<lambda>d. symbol d = k) ds) - unat N) (filter (\<lambda>d. symbol d = k) ds)"
  by (simp add: history_of_def map_find_pushes_init Let_def)


section \<open>Bounded first-in first-out histories\<close>

text \<open>
  Claim C1.  Take a buffer of capacity \<open>N \<ge> 1\<close> and any sequence \<open>ds\<close> of pushes to one
  key \<open>k\<close>.  The history of \<open>k\<close> never holds more than \<open>N\<close> elements.  One more push appends
  when there is room and otherwise drops the oldest element and appends.  When more than
  \<open>N\<close> values were pushed, \<open>getHistory k N\<close> returns the last \<open>N\<close> of them in push order.
  For any count, \<open>getHistory k count\<close> returns the \<open>min count size\<close> newest elements of
  the history, oldest first, and for a key that is not in the map it returns the empty
  vector and leaves the buffer as it was.
\<close>

theorem bounded_fifo_history:
  assumes "1 \<le> unat N" and "\<forall>d \<in> set ds. symbol d = k"
  shows "length (history_of k (pushes ds (SharedBuffer_init N))) \<le> unat N \<and>
    (symbol d = k \<longrightarrow>
       history_of k (push d (pushes ds (SharedBuffer_init N))) =
         (if length (history_of k (pushes ds (SharedBuffer_init N))) < unat N
          then history_of k (pushes ds (SharedBuffer_init N)) @ [d]
          else tl (history_of k (pushes ds (SharedBuffer_init N))) @ [d])) \<and>
    (unat N < length ds \<longrightarrow>
       getHistory k N (pushes ds (SharedBuffer_init N)) =
         Inr (drop (length ds - unat N) ds,
              (pushes ds (SharedBuffer_init N))
                \<lparr>total_reads := total_reads (pushes ds (SharedBuffer_init N)) + 1\<rparr>)) \<and>
    (ds \<noteq> [] \<longrightarrow>
       getHistory k c (pushes ds (SharedBuffer_init N)) =
         Inr (drop (length (history_of k (pushes ds (SharedBuffer_init N))) -
                    min (unat c) (length (history_of k (pushes ds (SharedBuffer_init N)))))
                (history_of k (pushes ds (SharedBuffer_init N))),
              (pushes ds (SharedBuffer_init N))
                \<lparr>total_reads := total_reads (pushes ds (SharedBuffer_init N)) + 1\<rparr>)) \<and>
    (k' \<notin> set (map symbol ds) \<longrightarrow>
       getHistory k' c (pushes ds (SharedBuffer_init N)) =
         Inr ([], pushes ds (SharedBuffer_init N)))"
proof -
  let ?b = "pushes ds (SharedBuffer_init N)"
  have all: "filter (\<lambda>d. symbol d = k) ds = ds"
    using assms(2) by (simp add: filter_id_conv)
  have hist: "history_of k ?b = drop (length ds - unat N) ds"
    by (simp add: history_of_pushes_init all)
  have cap: "max_history_size ?b = N"
    by (simp add: max_history_size_pushes SharedBuffer_init_def)
  have bounded: "length (history_of k ?b) \<le> unat N"
    by (simp add: hist)
  have evict: "history_of k (push d ?b) =
      (if length (history_of k ?b) < unat N then history_of k ?b @ [d]
       else tl (history_of k ?b) @ [d])" if "symbol d = k"
  proof -
    have "history_of k ?b \<noteq> []" if "\<not> length (history_of k ?b) < unat N"
      using that assms(1) by auto
    then show ?thesis
      using that by (simp add: history_of_push cap)
  qed
  have find: "map_find k (price_history ?b) = Some (history_of k ?b)" if "ds \<noteq> []"
    using that by (simp add: map_find_pushes_init all Let_def hist)
  have last_N: "getHistory k N ?b =
      Inr (drop (length ds - unat N) ds, ?b\<lparr>total_reads := total_reads ?b + 1\<rparr>)"
    if "unat N < length ds"
  proof -
    from that have "ds \<noteq> []" by auto
    then show ?thesis
      using that by (simp add: getHistory_known [OF find] hist)
  qed
  have window: "getHistory k c ?b =
      Inr (drop (length (history_of k ?b) - min (unat c) (length (history_of k ?b)))
             (history_of k ?b),
           ?b\<lparr>total_reads := total_reads ?b + 1\<rparr>)"
    if "ds \<noteq> []"
  proof -
    have "length (history_of k ?b) - min (unat c) (length (history_of k ?b)) =
        length (history_of k ?b) - unat c"
      by simp
    then show ?thesis
      by (simp only: getHistory_known [OF find [OF that]])
  qed
  have unknown: "getHistory k' c ?b = Inr ([], ?b)" if "k' \<notin> set (map symbol ds)"
  proof -
    have "filter (\<lambda>d. symbol d = k') ds = []"
      using that by (auto simp: filter_empty_conv)
    then have "map_find k' (price_history ?b) = None"
      by (simp add: map_find_pushes_init Let_def)
    then show ?thesis by (rule getHistory_unknown)
  qed
  from bounded evict last_N window unknown show ?thesis
    by (intro conjI impI)
qed

theorem bounded_fifo_history_witness:
  "1 \<le> unat (2 :: size_t) \<and>
   map symbol [PriceData_new ''X'' (10 :: real) 0 1, PriceData_new ''X'' (11 :: real) 1 2,
               PriceData_new ''X'' (12 :: real) 1 3] = [''X'', ''X'', ''X''] \<and>
   length (history_of ''X''
     (pushes [PriceData_new ''X'' (10 :: real) 0 1, PriceData_new ''X'' (11 :: real) 1 2, PriceData_new ''X'' (12 :: real) 1 3]
        (SharedBuffer_init 2 :: real SharedBuffer))) \<le> 2 \<and>
   (\<exists>b. getHistory ''X'' 2
     (pushes [PriceData_new ''X'' (10 :: real) 0 1, PriceData_new ''X'' (11 :: real) 1 2, PriceData_new ''X'' (12 :: real) 1 3]
        (SharedBuffer_init 2 :: real SharedBuffer)) =
     Inr ([PriceData_new ''X'' (11 :: real) 1 2, PriceData_new ''X'' (12 :: real) 1 3], b)) \<and>
   getHistory ''Y'' 5
     (pushes [PriceData_new ''X'' (10 :: real) 0 1, PriceData_new ''X'' (11 :: real) 1 2, PriceData_new ''X'' (12 :: real) 1 3]
        (SharedBuffer_init 2 :: real SharedBuffer)) =
     Inr ([], pushes [PriceData_new ''X'' (10 :: real) 0 1, PriceData_new ''X'' (11 :: real) 1 2,
                      PriceData_new ''X'' (12 :: real) 1 3] (SharedBuffer_init 2 :: real SharedBuffer))"
  using bounded_fifo_history [of 2
      "[PriceData_new ''X'' (10 :: real) 0 1, PriceData_new ''X'' (11 :: real) 1 2, PriceData_new ''X'' (12 :: real) 1 3]"
      "''X''" "PriceData_new ''X'' (13 :: real) 1 4" 5 "''Y''"]
  by (simp add: PriceData_new_def)


section \<open>Facts about single operations and runs\<close>

lemma getLatest_eq:
  "getLatest k out b =
     (case map_find k (price_history b) of
        None \<Rightarrow> Inr (False, out, b)
      | Some h \<Rightarrow>
          if h = [] then Inr (False, out, b)
          else Inr (True, last h, b\<lparr>total_reads := total_reads b + 1\<rparr>))"
  by (simp add: getLatest_def deque_back_def split: option.splits)

lemma getHistory_eq:
  "getHistory k c b =
     (case map_find k (price_history b) of
        None \<Rightarrow> Inr ([], b)
      | Some h \<Rightarrow> Inr (drop (length h - unat c) h, b\<lparr>total_reads := total_reads b + 1\<rparr>))"
  by (simp add: getHistory_known getHistory_unknown split: option.splits)

lemma wait_for_holds: "pred b \<Longrightarrow> wait_for pred b ws = Some (True, b, ws)"
  by (cases ws) auto

lemma exec_eq:
  "exec x b =
     Inr (case x of
            Push d \<Rightarrow> push d b
          | GetLatest k out \<Rightarrow>
              if history_of k b \<noteq> [] then b\<lparr>total_reads := total_reads b + 1\<rparr> else b
          | GetHistory k c \<Rightarrow>
              if key_known k b then b\<lparr>total_reads := total_reads b + 1\<rparr> else b
          | Shutdown \<Rightarrow> shutdown b
          | _ \<Rightarrow> b)"
  by (cases x)
    (simp_all add: getLatest_eq getHistory_eq waitForData_def history_of_def key_known_def
      split: option.splits)

lemma run_Inr: "\<exists>b'. run xs b = Inr b'"
  by (induction xs arbitrary: b) (simp_all add: exec_eq)

lemma exec_shutdown_flag:
  "exec x b = Inr b' \<Longrightarrow> shutdown_flag b \<Longrightarrow> shutdown_flag b'"
  by (cases x) (auto simp: exec_eq push_def Let_def shutdown_def)

lemma run_shutdown_flag:
  "run xs b = Inr b' \<Longrightarrow> shutdown_flag b \<Longrightarrow> shutdown_flag b'"
proof (induction xs arbitrary: b)
  case Nil
  then show ?case by simp
next
  case (Cons x xs)
  obtain b1 where b1: "exec x b = Inr b1" by (simp add: exec_eq)
  with Cons.prems have "run xs b1 = Inr b'" by simp
  moreover have "shutdown_flag b1" using b1 Cons.prems(2) by (rule exec_shutdown_flag)
  ultimately show ?case by (rule Cons.IH)
qed

lemma exec_total_writes:
  "exec x b = Inr b' \<Longrightarrow> total_writes b' = total_writes b + (if is_push x then 1 else 0)"
  by (cases x) (auto simp: exec_eq push_def Let_def shutdown_def)

lemma run_total_writes:
  "run xs b = Inr b' \<Longrightarrow> total_writes b' = total_writes b + of_nat (push_calls xs)"
proof (induction xs arbitrary: b)
  case Nil
  then show ?case by (simp add: push_calls_def)
next
  case (Cons x xs)
  obtain b1 where b1: "exec x b = Inr b1" by (simp add: exec_eq)
  with Cons.prems have "run xs b1 = Inr b'" by simp
  then have "total_writes b' = total_writes b1 + of_nat (push_calls xs)" by (rule Cons.IH)
  also have "total_writes b1 = total_writes b + (if is_push x then 1 else 0)"
    using b1 by (rule exec_total_writes)
  finally show ?case by (simp add: push_calls_def)
qed

lemma total_writes_pushes: "total_writes (pushes ds b) = total_writes b + of_nat (length ds)"
  by (induction ds arbitrary: b) (simp_all add: push_def Let_def)

lemma shutdown_flag_pushes: "shutdown_flag (pushes ds b) = shutdown_flag b"
  by (induction ds arbitrary: b) (simp_all add: push_def Let_def)

lemma waitForData_holds:
  "wake_predicate b \<Longrightarrow> waitForData t b ws = Some (True, b, ws)"
  by (simp add: waitForData_def wait_for_holds)

lemma waitForData_timeout:
  "\<not> wake_predicate b \<Longrightarrow> waitForData t b ((timeout, b) # ws) = Some (False, b, ws)"
  by (simp add: waitForData_def)

lemma counters_init: "total_writes (SharedBuffer_init N) = 0" "total_reads (SharedBuffer_init N) = 0"
  by (simp_all add: SharedBuffer_init_def)

lemma total_writes_wrapped:
  "total_writes (pushes (replicate (2 ^ 64) d) (SharedBuffer_init N)) = 0"
proof -
  have "total_writes (pushes (replicate (2 ^ 64) d) (SharedBuffer_init N)) =
      of_nat (length (replicate (2 ^ 64) d))"
    by (simp only: total_writes_pushes counters_init add_0_left)
  also have "length (replicate (2 ^ 64) d) = 2 ^ LENGTH(64)"
    by (simp only: length_replicate len_num1 len_bit0 mult_numeral_1_right semiring_norm)
  also have "(of_nat (2 ^ LENGTH(64)) :: size_t) = 0"
    by (rule of_nat_2p)
  finally show ?thesis .
qed

section \<open>The wake predicate of waitForData\<close>

text \<open>
  Claim C2 as the code has it.  The predicate of \<open>waitForData\<close> is
  \<open>shutdown_ || total_writes_ > 0\<close>: a call that finds it true returns true at once,
  without consuming a wake-up, whatever the timeout and whatever the other threads do;
  a call that finds it false blocks, and returns false when its wait times out with the
  buffer unchanged.  \<open>total_writes_\<close> is a \<open>size_t\<close>: after \<open>n\<close> pushes on a new buffer it
  is \<open>n mod 2 ^ 64\<close>, so the predicate holds in every state reached by a run with at least
  one and fewer than \<open>2 ^ 64\<close> pushes.
\<close>

theorem wake_predicate_after_first_write:
  assumes "run xs (SharedBuffer_init N) = Inr b"
    and "0 < push_calls xs" and "push_calls xs < 2 ^ 64"
  shows "waitForData t b ws = Some (True, b, ws) \<and>
    waitForData t b0 ws = wait_for (\<lambda>b. shutdown_flag b \<or> total_writes b > 0) b0 ws \<and>
    ((shutdown_flag b0 \<or> total_writes b0 > 0) \<longrightarrow> waitForData t b0 ws = Some (True, b0, ws)) \<and>
    (\<not> (shutdown_flag b0 \<or> total_writes b0 > 0) \<longrightarrow>
       waitForData t b0 [] = None \<and>
       waitForData t b0 ((timeout, b0) # ws) = Some (False, b0, ws))"
proof -
  have "total_writes b = of_nat (push_calls xs)"
    using run_total_writes [OF assms(1)] by (simp add: counters_init)
  moreover have "(of_nat (push_calls xs) :: size_t) \<noteq> 0"
    using assms(2,3) by (intro of_nat_neq_0) simp_all
  ultimately have "wake_predicate b"
    by (simp add: wake_predicate_def word_greater_zero_iff)
  then have "waitForData t b ws = Some (True, b, ws)"
    by (rule waitForData_holds)
  moreover have "waitForData t b0 ws =
      wait_for (\<lambda>b. shutdown_flag b \<or> total_writes b > 0) b0 ws"
    by (simp add: waitForData_def wake_predicate_def [abs_def])
  moreover have "waitForData t b0 ws = Some (True, b0, ws)"
    if "shutdown_flag b0 \<or> total_writes b0 > 0"
    using that by (intro waitForData_holds) (simp add: wake_predicate_def)
  moreover have "waitForData t b0 [] = None \<and>
      waitForData t b0 ((timeout, b0) # ws) = Some (False, b0, ws)"
    if "\<not> (shutdown_flag b0 \<or> total_writes b0 > 0)"
    using that by (simp add: waitForData_def wake_predicate_def)
  ultimately show ?thesis by blast
qed

theorem wake_predicate_after_first_write_witness:
  "run [Push (PriceData_new ''X'' (10 :: real) 0 1), GetLatest ''X'' (PriceData_default :: real PriceData)]
       (SharedBuffer_init 100 :: real SharedBuffer) =
     Inr ((push (PriceData_new ''X'' (10 :: real) 0 1) (SharedBuffer_init 100 :: real SharedBuffer))\<lparr>total_reads := 1\<rparr>) \<and>
   0 < push_calls [Push (PriceData_new ''X'' (10 :: real) 0 1), GetLatest ''X'' (PriceData_default :: real PriceData)] \<and>
   push_calls [Push (PriceData_new ''X'' (10 :: real) 0 1), GetLatest ''X'' (PriceData_default :: real PriceData)] < 2 ^ 64 \<and>
   waitForData 60000 ((push (PriceData_new ''X'' (10 :: real) 0 1) (SharedBuffer_init 100 :: real SharedBuffer))\<lparr>total_reads := 1\<rparr>) [] =
     Some (True, (push (PriceData_new ''X'' (10 :: real) 0 1) (SharedBuffer_init 100 :: real SharedBuffer))\<lparr>total_reads := 1\<rparr>, []) \<and>
   waitForData 60000 (SharedBuffer_init 100 :: real SharedBuffer) [] = None"
proof -
  have r: "run [Push (PriceData_new ''X'' (10 :: real) 0 1), GetLatest ''X'' (PriceData_default :: real PriceData)]
       (SharedBuffer_init 100 :: real SharedBuffer) =
     Inr ((push (PriceData_new ''X'' (10 :: real) 0 1) (SharedBuffer_init 100 :: real SharedBuffer))\<lparr>total_reads := 1\<rparr>)"
    by (simp add: getLatest_eq push_def SharedBuffer_init_def Let_def PriceData_new_def)
  have p: "push_calls [Push (PriceData_new ''X'' (10 :: real) 0 1), GetLatest ''X'' (PriceData_default :: real PriceData)] = 1"
    by (simp add: push_calls_def)
  show ?thesis
    using wake_predicate_after_first_write [OF r, of 60000 "[]" "SharedBuffer_init 100 :: real SharedBuffer"] r p
    by (simp add: SharedBuffer_init_def)
qed

text \<open>
  The claim as worded fails once the counter wraps: after \<open>2 ^ 64\<close> pushes on a buffer
  that was not shut down the counter is 0 again, and a call whose wait times out returns
  false.
\<close>

theorem wake_predicate_false_after_wrap:
  "waitForData 1000
     (pushes (replicate (2 ^ 64) (PriceData_new ''X'' (10 :: real) 0 1)) (SharedBuffer_init 100 :: real SharedBuffer))
     [(timeout, pushes (replicate (2 ^ 64) (PriceData_new ''X'' (10 :: real) 0 1)) (SharedBuffer_init 100 :: real SharedBuffer))] =
   Some (False, pushes (replicate (2 ^ 64) (PriceData_new ''X'' (10 :: real) 0 1)) (SharedBuffer_init 100 :: real SharedBuffer), [])"
proof (rule waitForData_timeout)
  have "\<not> shutdown_flag (SharedBuffer_init 100 :: real SharedBuffer)"
    by (simp add: SharedBuffer_init_def)
  then have "\<not> shutdown_flag
      (pushes (replicate (2 ^ 64) (PriceData_new ''X'' (10 :: real) 0 1)) (SharedBuffer_init 100 :: real SharedBuffer))"
    by (simp only: shutdown_flag_pushes simp_thms)
  then show "\<not> wake_predicate
      (pushes (replicate (2 ^ 64) (PriceData_new ''X'' (10 :: real) 0 1)) (SharedBuffer_init 100 :: real SharedBuffer))"
    by (simp only: wake_predicate_def total_writes_wrapped) simp
qed

section \<open>The monitor after a shutdown\<close>

lemma notify_all_waiters:
  "Blocked \<notin> set (waiters (notify_all m))"
  "length (waiters (notify_all m)) = length (waiters m)"
  "shared (notify_all m) = shared m"
  by (auto simp: notify_all_def)

lemma notify_all_nth:
  "i < length (waiters m) \<Longrightarrow>
   waiters (notify_all m) ! i = (if waiters m ! i = Blocked then Woken no_timeout else waiters m ! i)"
  by (simp add: notify_all_def)

lemma notify_all_idem: "notify_all (notify_all m) = notify_all m"
  by (simp add: notify_all_def)

lemma shutdown_call_idem: "shutdown_call (shutdown_call m) = shutdown_call m"
  by (simp add: shutdown_call_def notify_all_def shutdown_def)

lemma shutdown_call_funpow: "(shutdown_call ^^ Suc n) m = shutdown_call m"
  by (induction n) (simp_all add: shutdown_call_idem)

lemma shutdown_flag_push: "shutdown_flag (push d b) = shutdown_flag b"
  by (simp add: push_def Let_def)

lemma step_keeps_shutdown:
  assumes "shutdown_flag (shared m)" and "Blocked \<notin> set (waiters m)"
  shows "shutdown_flag (shared (step e m)) \<and> Blocked \<notin> set (waiters (step e m))"
proof (cases e)
  case (Call x)
  obtain b where b: "exec x (shared m) = Inr b" by (simp add: exec_eq)
  then have flag: "shutdown_flag b" using assms(1) by (rule exec_shutdown_flag)
  show ?thesis
  proof (cases x)
    case (Push d)
    with Call assms show ?thesis
      by (simp add: push_call_def notify_all_waiters shutdown_flag_push)
  next
    case Shutdown
    with Call show ?thesis
      by (simp add: shutdown_call_def notify_all_waiters shutdown_def)
  qed (use Call b flag assms(2) in simp_all)
next
  case (Enter t)
  with assms show ?thesis
    by (simp add: waitForData_call_def wake_predicate_def)
next
  case (Resume i)
  have "set ((waiters m)[i := Returned True]) \<subseteq> insert (Returned True) (set (waiters m))"
    by (rule set_update_subset_insert)
  with Resume assms show ?thesis
    by (auto simp: resume_def wake_predicate_def split: waiter.splits)
next
  case (Wake st i)
  have "waiters m ! i \<noteq> Blocked" if "i < length (waiters m)"
    using that assms(2) by (metis nth_mem)
  with Wake assms show ?thesis
    by (auto simp: wake_def)
qed

lemma step_keeps_waiter:
  assumes "shutdown_flag (shared m)"
    and "i < length (waiters m)" and "waiters m ! i \<noteq> Returned False"
  shows "i < length (waiters (step e m)) \<and> waiters (step e m) ! i \<noteq> Returned False"
proof (cases e)
  case (Call x)
  obtain b where b: "exec x (shared m) = Inr b" by (simp add: exec_eq)
  show ?thesis
  proof (cases x)
    case (Push d)
    with Call assms(2,3) show ?thesis
      by (simp add: push_call_def notify_all_def)
  next
    case Shutdown
    with Call assms(2,3) show ?thesis
      by (simp add: shutdown_call_def notify_all_def)
  qed (use Call b assms(2,3) in simp_all)
next
  case (Enter t)
  with assms(2,3) show ?thesis
    by (simp add: waitForData_call_def nth_append)
next
  case (Resume j)
  with assms show ?thesis
    by (cases "j = i") (auto simp: resume_def wake_predicate_def split: waiter.splits)
next
  case (Wake st j)
  with assms(2,3) show ?thesis
    by (cases "j = i") (auto simp: wake_def)
qed

lemma steps_keep_shutdown:
  assumes "shutdown_flag (shared m)" and "Blocked \<notin> set (waiters m)"
  shows "shutdown_flag (shared (steps es m)) \<and> Blocked \<notin> set (waiters (steps es m))"
  using assms
proof (induction es arbitrary: m)
  case Nil
  then show ?case by simp
next
  case (Cons e es)
  from step_keeps_shutdown [OF Cons.prems, of e]
  have "shutdown_flag (shared (step e m))" and "Blocked \<notin> set (waiters (step e m))"
    by simp_all
  then show ?case using Cons.IH by simp
qed

lemma steps_keep_waiter:
  assumes "shutdown_flag (shared m)" and "Blocked \<notin> set (waiters m)"
    and "i < length (waiters m)" and "waiters m ! i \<noteq> Returned False"
  shows "i < length (waiters (steps es m)) \<and> waiters (steps es m) ! i \<noteq> Returned False"
  using assms
proof (induction es arbitrary: m)
  case Nil
  then show ?case by simp
next
  case (Cons e es)
  from step_keeps_shutdown [OF Cons.prems(1,2), of e]
  have "shutdown_flag (shared (step e m))" and "Blocked \<notin> set (waiters (step e m))"
    by simp_all
  moreover from step_keeps_waiter [OF Cons.prems(1,3,4), of e]
  have "i < length (waiters (step e m))" and "waiters (step e m) ! i \<noteq> Returned False"
    by simp_all
  ultimately show ?case using Cons.IH by simp
qed

lemma resume_returns_true:
  assumes "shutdown_flag (shared m)" and "Blocked \<notin> set (waiters m)"
    and "i < length (waiters m)" and "waiters m ! i \<noteq> Returned False"
  shows "waiters (resume i m) ! i = Returned True"
proof (cases "waiters m ! i")
  case Blocked
  with assms(2,3) show ?thesis by (metis nth_mem)
next
  case (Woken st)
  with assms(1,3) show ?thesis
    by (simp add: resume_def wake_predicate_def)
next
  case (Returned r)
  with assms(3,4) show ?thesis
    by (cases r) (simp_all add: resume_def)
qed

section \<open>Shutdown\<close>

text \<open>
  Claim C3.  Any number of calls of \<open>shutdown\<close> leaves the buffer, and the monitor, as one
  call does: the flag is set and no other member changes.  The flag is never cleared, so
  in every state that a run reaches after a \<open>shutdown\<close>, \<open>waitForData\<close> returns true without
  blocking, whatever its timeout.  The call notifies the condition variable: every thread
  that is blocked in \<open>waitForData\<close> is woken by it, with the status of a notification and
  not of its deadline; from then on no thread is blocked, whatever happens next; every
  call that was pending returns true as soon as it takes the lock, and every later call
  returns true at once.
\<close>

theorem shutdown_idempotent_and_wakes:
  "(shutdown ^^ Suc n) b = shutdown b \<and>
   shutdown_flag (shutdown b) \<and>
   price_history (shutdown b) = price_history b \<and>
   max_history_size (shutdown b) = max_history_size b \<and>
   total_writes (shutdown b) = total_writes b \<and>
   total_reads (shutdown b) = total_reads b \<and>
   waitForData t (shutdown b) ws = Some (True, shutdown b, ws) \<and>
   (run xs (shutdown b) = Inr b' \<longrightarrow> waitForData t b' ws = Some (True, b', ws)) \<and>
   (\<not> wake_predicate b0 \<and> shutdown_flag b1 \<longrightarrow>
      waitForData t b0 ((st, b1) # ws) = Some (True, b1, ws)) \<and>
   (shutdown_call ^^ Suc n) m = shutdown_call m \<and>
   shared (shutdown_call m) = shutdown (shared m) \<and>
   (i < length (waiters m) \<and> waiters m ! i = Blocked \<longrightarrow>
      waiters (shutdown_call m) ! i = Woken no_timeout) \<and>
   Blocked \<notin> set (waiters (steps es (shutdown_call m))) \<and>
   (i < length (waiters m) \<and> (waiters m ! i = Blocked \<or> waiters m ! i = Woken st) \<longrightarrow>
      waiters (step (Resume i) (steps es (shutdown_call m))) ! i = Returned True) \<and>
   last (waiters (step (Enter t) (steps es (shutdown_call m)))) = Returned True"
proof -
  have idem: "(shutdown ^^ Suc n) b = shutdown b"
    by (induction n) (simp_all add: shutdown_def)
  have flag: "shutdown_flag (shutdown b)"
    by (simp add: shutdown_def)
  have now: "waitForData t (shutdown b) ws = Some (True, shutdown b, ws)"
    using flag by (intro waitForData_holds) (simp add: wake_predicate_def)
  have later: "waitForData t b' ws = Some (True, b', ws)" if "run xs (shutdown b) = Inr b'"
  proof -
    from that flag have "shutdown_flag b'" by (rule run_shutdown_flag)
    then show ?thesis by (intro waitForData_holds) (simp add: wake_predicate_def)
  qed
  have pending: "waitForData t b0 ((st, b1) # ws) = Some (True, b1, ws)"
    if "\<not> wake_predicate b0 \<and> shutdown_flag b1"
  proof -
    from that have "wake_predicate b1" by (simp add: wake_predicate_def)
    with that show ?thesis
      by (simp add: waitForData_def wait_for_holds)
  qed
  have buffer: "(shutdown ^^ Suc n) b = shutdown b \<and>
      shutdown_flag (shutdown b) \<and>
      price_history (shutdown b) = price_history b \<and>
      max_history_size (shutdown b) = max_history_size b \<and>
      total_writes (shutdown b) = total_writes b \<and>
      total_reads (shutdown b) = total_reads b \<and>
      waitForData t (shutdown b) ws = Some (True, shutdown b, ws) \<and>
      (run xs (shutdown b) = Inr b' \<longrightarrow> waitForData t b' ws = Some (True, b', ws)) \<and>
      (\<not> wake_predicate b0 \<and> shutdown_flag b1 \<longrightarrow>
         waitForData t b0 ((st, b1) # ws) = Some (True, b1, ws))"
    using idem flag now later pending by (simp add: shutdown_def)
  let ?m = "shutdown_call m"
  have m_idem: "(shutdown_call ^^ Suc n) m = ?m"
    by (rule shutdown_call_funpow)
  have m_shared: "shared ?m = shutdown (shared m)"
    by (simp add: shutdown_call_def notify_all_def)
  have m_flag: "shutdown_flag (shared ?m)"
    by (simp add: m_shared shutdown_def)
  have m_none: "Blocked \<notin> set (waiters ?m)"
    by (simp add: shutdown_call_def notify_all_waiters)
  have woken: "waiters ?m ! i = Woken no_timeout"
    if "i < length (waiters m) \<and> waiters m ! i = Blocked"
    using that by (simp add: shutdown_call_def notify_all_nth)
  have after: "shutdown_flag (shared (steps es ?m)) \<and> Blocked \<notin> set (waiters (steps es ?m))"
    using m_flag m_none by (rule steps_keep_shutdown)
  have returns: "waiters (step (Resume i) (steps es ?m)) ! i = Returned True"
    if "i < length (waiters m) \<and> (waiters m ! i = Blocked \<or> waiters m ! i = Woken st)"
  proof -
    from that have "i < length (waiters ?m)" and "waiters ?m ! i \<noteq> Returned False"
      by (auto simp: shutdown_call_def notify_all_waiters notify_all_nth)
    with m_flag m_none
    have "i < length (waiters (steps es ?m)) \<and> waiters (steps es ?m) ! i \<noteq> Returned False"
      by (rule steps_keep_waiter)
    with after have "waiters (resume i (steps es ?m)) ! i = Returned True"
      by (intro resume_returns_true) simp_all
    then show ?thesis by simp
  qed
  have enters: "last (waiters (step (Enter t) (steps es ?m))) = Returned True"
    using after by (simp add: waitForData_call_def wake_predicate_def)
  from buffer m_idem m_shared woken after returns enters show ?thesis
    by (intro conjI impI) (simp_all only: simp_thms)
qed

theorem shutdown_idempotent_and_wakes_witness:
  "(shutdown ^^ 3) (SharedBuffer_init 100 :: real SharedBuffer) = shutdown (SharedBuffer_init 100) \<and>
   run [Push (PriceData_new ''X'' (10 :: real) 0 1)] (shutdown (SharedBuffer_init 100)) =
     Inr (push (PriceData_new ''X'' 10 0 1) (shutdown (SharedBuffer_init 100))) \<and>
   waitForData 60000 (push (PriceData_new ''X'' (10 :: real) 0 1) (shutdown (SharedBuffer_init 100))) [] =
     Some (True, push (PriceData_new ''X'' 10 0 1) (shutdown (SharedBuffer_init 100)), []) \<and>
   \<not> wake_predicate (SharedBuffer_init 100 :: real SharedBuffer) \<and>
   shutdown_flag (shutdown (SharedBuffer_init 100 :: real SharedBuffer)) \<and>
   waitForData 60000 (SharedBuffer_init 100 :: real SharedBuffer)
       [(no_timeout, shutdown (SharedBuffer_init 100))] =
     Some (True, shutdown (SharedBuffer_init 100), []) \<and>
   (0 :: nat) < length (waiters \<lparr>shared = SharedBuffer_init 100 :: real SharedBuffer,
                                 waiters = [Blocked]\<rparr>) \<and>
   waiters \<lparr>shared = SharedBuffer_init 100 :: real SharedBuffer, waiters = [Blocked]\<rparr> ! 0 = Blocked \<and>
   waiters (shutdown_call \<lparr>shared = SharedBuffer_init 100 :: real SharedBuffer,
                            waiters = [Blocked]\<rparr>) = [Woken no_timeout] \<and>
   waiters (step (Resume 0)
      (steps [Call (Push (PriceData_new ''X'' 10 0 1)), Enter 1000]
         (shutdown_call \<lparr>shared = SharedBuffer_init 100 :: real SharedBuffer,
                          waiters = [Blocked]\<rparr>))) =
     [Returned True, Returned True]"
proof -
  let ?b = "SharedBuffer_init 100 :: real SharedBuffer"
  let ?m = "\<lparr>shared = ?b, waiters = [Blocked]\<rparr>"
  let ?es = "[Call (Push (PriceData_new ''X'' (10 :: real) 0 1)), Enter 1000]"
  note t = shutdown_idempotent_and_wakes [where n = 2 and b = ?b and t = 60000 and ws = "[]"
      and xs = "[Push (PriceData_new ''X'' (10 :: real) 0 1)]"
      and b' = "push (PriceData_new ''X'' (10 :: real) 0 1) (shutdown ?b)"
      and ?b0.0 = ?b and ?b1.0 = "shutdown ?b" and st = no_timeout
      and m = ?m and i = 0 and es = ?es]
  have l: "(0 :: nat) < length (waiters ?m)" and w: "waiters ?m ! 0 = Blocked"
    by simp_all
  from t l w have "waiters (step (Resume 0) (steps ?es (shutdown_call ?m))) ! 0 = Returned True"
    by blast
  moreover have "waiters (step (Resume 0) (steps ?es (shutdown_call ?m))) =
      [waiters (step (Resume 0) (steps ?es (shutdown_call ?m))) ! 0, Returned True]"
    by (simp add: shutdown_call_def push_call_def notify_all_def waitForData_call_def
        resume_def wake_predicate_def shutdown_def push_def Let_def)
  ultimately have r: "waiters (step (Resume 0) (steps ?es (shutdown_call ?m))) =
      [Returned True, Returned True]"
    by simp
  have s: "waiters (shutdown_call ?m) = [Woken no_timeout]"
    by (simp add: shutdown_call_def notify_all_def)
  from t l w r s show ?thesis
    by (simp add: wake_predicate_def SharedBuffer_init_def numeral_3_eq_3)
qed

section \<open>Runs and the contents of the map\<close>

lemma price_history_push_cong:
  "price_history b1 = price_history b2 \<Longrightarrow> max_history_size b1 = max_history_size b2 \<Longrightarrow>
   price_history (push d b1) = price_history (push d b2)"
  by (simp add: push_def Let_def)

lemma exec_price_history:
  "exec x b = Inr b' \<Longrightarrow>
   price_history b' = (case x of Push d \<Rightarrow> price_history (push d b) | _ \<Rightarrow> price_history b) \<and>
   max_history_size b' = max_history_size b"
  by (cases x) (auto simp: exec_eq shutdown_def max_history_size_push)

lemma pushed_data_Cons:
  "pushed_data (x # xs) = (case x of Push d \<Rightarrow> [d] | _ \<Rightarrow> []) @ pushed_data xs"
  by (cases x) simp_all

lemma pushes_append: "pushes (ds @ es) b = pushes es (pushes ds b)"
  by (induction ds arbitrary: b) simp_all

lemma run_price_history_aux:
  "run xs b1 = Inr b1' \<Longrightarrow> price_history b1 = price_history b2 \<Longrightarrow>
   max_history_size b1 = max_history_size b2 \<Longrightarrow>
   price_history b1' = price_history (pushes (pushed_data xs) b2) \<and>
   max_history_size b1' = max_history_size b2"
proof (induction xs arbitrary: b1 b2)
  case Nil
  then show ?case by simp
next
  case (Cons x xs)
  let ?ds = "case x of Push d \<Rightarrow> [d] | _ \<Rightarrow> []"
  obtain c where c: "exec x b1 = Inr c" by (simp add: exec_eq)
  with Cons.prems(1) have r: "run xs c = Inr b1'" by simp
  note e = exec_price_history [OF c]
  have ph: "price_history c = price_history (pushes ?ds b2)"
  proof (cases x)
    case (Push d)
    then show ?thesis
      using e price_history_push_cong [OF Cons.prems(2,3), of d] by simp
  qed (use e Cons.prems(2) in simp_all)
  have ms: "max_history_size c = max_history_size (pushes ?ds b2)"
    using e Cons.prems(3) by (simp add: max_history_size_pushes)
  have "price_history b1' = price_history (pushes (pushed_data xs) (pushes ?ds b2)) \<and>
      max_history_size b1' = max_history_size (pushes ?ds b2)"
    using r ph ms by (rule Cons.IH)
  then show ?case
    by (simp only: pushed_data_Cons pushes_append max_history_size_pushes)
qed

lemma run_price_history:
  "run xs b = Inr b' \<Longrightarrow>
   price_history b' = price_history (pushes (pushed_data xs) b) \<and>
   max_history_size b' = max_history_size b"
  by (rule run_price_history_aux) simp_all

lemma map_find_run_init:
  assumes "run xs (SharedBuffer_init N) = Inr b"
  shows "map_find k (price_history b) =
     (let f = filter (\<lambda>d. symbol d = k) (pushed_data xs)
      in if f = [] then None else Some (drop (length f - unat N) f))"
  using run_price_history [OF assms] by (simp add: map_find_pushes_init)

section \<open>The latest observation\<close>

text \<open>
  Claim C4.  \<open>getLatest\<close> returns false, with the output parameter and the buffer as they
  were, exactly when the symbol has no entry in the map or its deque is empty; otherwise
  it returns true with the back of the deque and counts one read.  In a state reached
  from a new buffer of capacity at least 1, the back of the deque of a symbol is the
  observation pushed last for that symbol.  Neither \<open>getLatest\<close> nor \<open>getHistory\<close>, nor
  any run of operations, ever faults: absence is the boolean or the empty vector.
\<close>

theorem getLatest_found_or_absent:
  "getLatest k out b0 =
     (if map_find k (price_history b0) = None \<or> map_find k (price_history b0) = Some []
      then Inr (False, out, b0)
      else Inr (True, last (history_of k b0), b0\<lparr>total_reads := total_reads b0 + 1\<rparr>)) \<and>
   (run xs (SharedBuffer_init N) = Inr b \<and> 1 \<le> unat N \<and>
    filter (\<lambda>d. symbol d = k) (pushed_data xs) \<noteq> [] \<longrightarrow>
      getLatest k out b =
        Inr (True, last (filter (\<lambda>d. symbol d = k) (pushed_data xs)),
             b\<lparr>total_reads := total_reads b + 1\<rparr>)) \<and>
   (run xs (SharedBuffer_init N) = Inr b \<and>
    filter (\<lambda>d. symbol d = k) (pushed_data xs) = [] \<longrightarrow>
      getLatest k out b = Inr (False, out, b)) \<and>
   (\<exists>r. getLatest k out b0 = Inr r) \<and>
   (\<exists>r. getHistory k c b0 = Inr r) \<and>
   (\<exists>r. run ys b0 = Inr r)"
proof -
  have shape: "getLatest k out b0 =
     (if map_find k (price_history b0) = None \<or> map_find k (price_history b0) = Some []
      then Inr (False, out, b0)
      else Inr (True, last (history_of k b0), b0\<lparr>total_reads := total_reads b0 + 1\<rparr>))"
    by (simp add: getLatest_eq history_of_def split: option.splits)
  have pushed: "getLatest k out b =
      Inr (True, last (filter (\<lambda>d. symbol d = k) (pushed_data xs)),
           b\<lparr>total_reads := total_reads b + 1\<rparr>)"
    if "run xs (SharedBuffer_init N) = Inr b \<and> 1 \<le> unat N \<and>
      filter (\<lambda>d. symbol d = k) (pushed_data xs) \<noteq> []"
  proof -
    let ?f = "filter (\<lambda>d. symbol d = k) (pushed_data xs)"
    from that have r: "run xs (SharedBuffer_init N) = Inr b" and n: "1 \<le> unat N" and f: "?f \<noteq> []"
      by simp_all
    have find: "map_find k (price_history b) = Some (drop (length ?f - unat N) ?f)"
      using f by (simp add: map_find_run_init [OF r] Let_def)
    have "length ?f - unat N < length ?f"
      using f n by (cases ?f) simp_all
    then have "drop (length ?f - unat N) ?f \<noteq> []"
      and "last (drop (length ?f - unat N) ?f) = last ?f"
      by simp_all
    then show ?thesis by (simp add: getLatest_eq find)
  qed
  have none: "getLatest k out b = Inr (False, out, b)"
    if "run xs (SharedBuffer_init N) = Inr b \<and> filter (\<lambda>d. symbol d = k) (pushed_data xs) = []"
  proof -
    from that have r: "run xs (SharedBuffer_init N) = Inr b" by simp
    show ?thesis
      using that by (simp add: getLatest_eq map_find_run_init [OF r] Let_def)
  qed
  have "\<exists>r. getLatest k out b0 = Inr r"
    by (auto simp: getLatest_eq split: option.splits)
  moreover have "\<exists>r. getHistory k c b0 = Inr r"
    by (simp add: getHistory_eq split: option.splits)
  moreover have "\<exists>r. run ys b0 = Inr r"
    by (rule run_Inr)
  ultimately show ?thesis
    using shape pushed none by blast
qed

theorem getLatest_found_or_absent_witness:
  "run [Push (PriceData_new ''X'' (10 :: real) 0 1), Push (PriceData_new ''Y'' (7 :: real) 0 2),
        Push (PriceData_new ''X'' (11 :: real) 1 3)] (SharedBuffer_init 2 :: real SharedBuffer) =
     Inr (pushes [PriceData_new ''X'' (10 :: real) 0 1, PriceData_new ''Y'' (7 :: real) 0 2,
                  PriceData_new ''X'' (11 :: real) 1 3] (SharedBuffer_init 2 :: real SharedBuffer)) \<and>
   1 \<le> unat (2 :: size_t) \<and>
   (\<exists>r. getLatest ''X'' (PriceData_default :: real PriceData)
      (pushes [PriceData_new ''X'' (10 :: real) 0 1, PriceData_new ''Y'' (7 :: real) 0 2,
               PriceData_new ''X'' (11 :: real) 1 3] (SharedBuffer_init 2 :: real SharedBuffer)) =
     Inr (True, PriceData_new ''X'' (11 :: real) 1 3, r)) \<and>
   getLatest ''Z'' (PriceData_default :: real PriceData)
      (pushes [PriceData_new ''X'' (10 :: real) 0 1, PriceData_new ''Y'' (7 :: real) 0 2,
               PriceData_new ''X'' (11 :: real) 1 3] (SharedBuffer_init 2 :: real SharedBuffer)) =
     Inr (False, (PriceData_default :: real PriceData),
      pushes [PriceData_new ''X'' (10 :: real) 0 1, PriceData_new ''Y'' (7 :: real) 0 2,
               PriceData_new ''X'' (11 :: real) 1 3] (SharedBuffer_init 2 :: real SharedBuffer))"
  using
    getLatest_found_or_absent [of "''X''" "PriceData_default :: real PriceData" "SharedBuffer_init 2 :: real SharedBuffer"
      "[Push (PriceData_new ''X'' (10 :: real) 0 1), Push (PriceData_new ''Y'' (7 :: real) 0 2),
        Push (PriceData_new ''X'' (11 :: real) 1 3)]" 2
      "pushes [PriceData_new ''X'' (10 :: real) 0 1, PriceData_new ''Y'' (7 :: real) 0 2,
               PriceData_new ''X'' (11 :: real) 1 3] (SharedBuffer_init 2 :: real SharedBuffer)" 1]
    getLatest_found_or_absent [of "''Z''" "PriceData_default :: real PriceData" "SharedBuffer_init 2 :: real SharedBuffer"
      "[Push (PriceData_new ''X'' (10 :: real) 0 1), Push (PriceData_new ''Y'' (7 :: real) 0 2),
        Push (PriceData_new ''X'' (11 :: real) 1 3)]" 2
      "pushes [PriceData_new ''X'' (10 :: real) 0 1, PriceData_new ''Y'' (7 :: real) 0 2,
               PriceData_new ''X'' (11 :: real) 1 3] (SharedBuffer_init 2 :: real SharedBuffer)" 1]
  by (simp add: PriceData_new_def)


section \<open>Invariants of the map\<close>

lemma map_find_Some_mem: "map_find k m = Some h \<Longrightarrow> (k, h) \<in> set m"
  by (induction k m rule: map_find.induct) (auto split: if_splits)

lemma set_map_store_subset: "set (map_store k v m) \<subseteq> insert (k, v) (set m)"
  by (induction k v m rule: map_store.induct) auto

lemma histories_nonempty_find:
  "histories_nonempty b \<Longrightarrow> map_find k (price_history b) = Some h \<Longrightarrow> h \<noteq> []"
  by (auto simp: histories_nonempty_def list_all_iff dest: map_find_Some_mem)

lemma histories_nonempty_push:
  assumes "histories_nonempty b" and "1 \<le> unat (max_history_size b)"
  shows "histories_nonempty (push d b)"
proof -
  let ?h = "case map_find (symbol d) (price_history b) of None \<Rightarrow> [] | Some h \<Rightarrow> h"
  let ?h' = "if length (?h @ [d]) > unat (max_history_size b) then tl (?h @ [d]) else ?h @ [d]"
  have "?h' \<noteq> []"
    using assms(2) by (cases ?h) auto
  moreover have "price_history (push d b) = map_store (symbol d) ?h' (price_history b)"
    by (simp add: push_def Let_def)
  ultimately show ?thesis
    using assms(1) set_map_store_subset [of "symbol d" ?h' "price_history b"]
    by (auto simp: histories_nonempty_def list_all_iff)
qed

lemma histories_nonempty_exec:
  assumes "exec x b = Inr b'" and "histories_nonempty b" and "1 \<le> unat (max_history_size b)"
  shows "histories_nonempty b' \<and> max_history_size b' = max_history_size b"
proof (cases x)
  case (Push d)
  then show ?thesis
    using assms by (auto simp: histories_nonempty_push max_history_size_push)
next
  case (GetLatest k out)
  then show ?thesis
    using assms exec_price_history [OF assms(1)] by (simp add: histories_nonempty_def)
next
  case (GetHistory k c)
  then show ?thesis
    using assms exec_price_history [OF assms(1)] by (simp add: histories_nonempty_def)
next
  case Shutdown
  then show ?thesis
    using assms exec_price_history [OF assms(1)] by (simp add: histories_nonempty_def)
qed (use assms exec_eq [of x b] in simp_all)

lemma histories_nonempty_run:
  "run xs b = Inr b' \<Longrightarrow> histories_nonempty b \<Longrightarrow> 1 \<le> unat (max_history_size b) \<Longrightarrow>
   histories_nonempty b'"
proof (induction xs arbitrary: b)
  case Nil
  then show ?case by simp
next
  case (Cons x xs)
  obtain c where c: "exec x b = Inr c" by (simp add: exec_eq)
  with Cons.prems(1) have r: "run xs c = Inr b'" by simp
  from histories_nonempty_exec [OF c Cons.prems(2,3)] Cons.prems(3)
  have "histories_nonempty c" and "1 \<le> unat (max_history_size c)" by simp_all
  with r show ?case by (rule Cons.IH)
qed

lemma sorted_keys_push:
  "sorted_wrt (<) (map_keys (price_history b)) \<Longrightarrow>
   sorted_wrt (<) (map_keys (price_history (push d b)))"
  by (simp add: push_def Let_def sorted_map_keys_store)

lemma sorted_keys_pushes:
  "sorted_wrt (<) (map_keys (price_history b)) \<Longrightarrow>
   sorted_wrt (<) (map_keys (price_history (pushes ds b)))"
  by (induction ds arbitrary: b) (simp_all add: sorted_keys_push)

lemma sorted_keys_run_init:
  assumes "run xs (SharedBuffer_init N) = Inr b"
  shows "sorted_wrt (<) (map_keys (price_history b))"
proof -
  have "sorted_wrt (<) (map_keys (price_history (SharedBuffer_init N)))"
    by (simp add: SharedBuffer_init_def map_keys_def)
  then have "sorted_wrt (<) (map_keys (price_history (pushes (pushed_data xs) (SharedBuffer_init N))))"
    by (rule sorted_keys_pushes)
  then show ?thesis using run_price_history [OF assms] by simp
qed

lemma keys_run_init:
  assumes "run xs (SharedBuffer_init N) = Inr b"
  shows "set (map_keys (price_history b)) = symbol ` set (pushed_data xs)"
proof -
  have "k \<in> set (map_keys (price_history b)) \<longleftrightarrow> k \<in> symbol ` set (pushed_data xs)" for k
  proof -
    have "k \<in> set (map_keys (price_history b)) \<longleftrightarrow> map_find k (price_history b) \<noteq> None"
      by (simp add: map_find_None_iff)
    also have "\<dots> \<longleftrightarrow> filter (\<lambda>d. symbol d = k) (pushed_data xs) \<noteq> []"
      by (simp add: map_find_run_init [OF assms] Let_def)
    also have "\<dots> \<longleftrightarrow> k \<in> symbol ` set (pushed_data xs)"
      by (auto simp: filter_empty_conv)
    finally show ?thesis .
  qed
  then show ?thesis by blast
qed

section \<open>Counting reads\<close>

lemma exec_total_reads:
  "exec x b = Inr b' \<Longrightarrow> total_reads b' = total_reads b + (if reads_counted x b then 1 else 0)"
  by (cases x)
    (auto simp: exec_eq getLatest_eq history_of_def key_known_def push_def Let_def shutdown_def
      split: option.splits)

lemma run_total_reads:
  "run xs b = Inr b' \<Longrightarrow> total_reads b' = total_reads b + of_nat (calls_where reads_counted xs b)"
proof (induction xs arbitrary: b)
  case Nil
  then show ?case by simp
next
  case (Cons x xs)
  obtain c where c: "exec x b = Inr c" by (simp add: exec_eq)
  with Cons.prems have "run xs c = Inr b'" by simp
  then have "total_reads b' = total_reads c + of_nat (calls_where reads_counted xs c)"
    by (rule Cons.IH)
  also have "total_reads c = total_reads b + (if reads_counted x b then 1 else 0)"
    using c by (rule exec_total_reads)
  finally show ?case using c by simp
qed

lemma reads_counted_iff_known:
  "histories_nonempty b \<Longrightarrow> reads_counted x b = reads_key_known x b"
  by (cases x)
    (auto simp: getLatest_eq key_known_def split: option.splits dest: histories_nonempty_find)

lemma calls_where_counted_known:
  "histories_nonempty b \<Longrightarrow> 1 \<le> unat (max_history_size b) \<Longrightarrow>
   calls_where reads_counted xs b = calls_where reads_key_known xs b"
proof (induction xs arbitrary: b)
  case Nil
  show ?case by simp
next
  case (Cons x xs)
  obtain c where c: "exec x b = Inr c" by (simp add: exec_eq)
  from histories_nonempty_exec [OF c Cons.prems] Cons.prems(2)
  have "histories_nonempty c" and "1 \<le> unat (max_history_size c)" by simp_all
  then have "calls_where reads_counted xs c = calls_where reads_key_known xs c"
    by (rule Cons.IH)
  then show ?case
    using c Cons.prems(1) by (simp add: reads_counted_iff_known)
qed


section \<open>The counters\<close>

text \<open>
  Claim C5 as the code has it.  After any run on a new buffer, \<open>getStats\<close> reports the
  number of \<open>push\<close> calls and the number of counted reads, both as \<open>size_t\<close> values, that is
  modulo \<open>2 ^ 64\<close>, and exactly while the numbers are below \<open>2 ^ 64\<close>.  The counted reads
  are the \<open>getLatest\<close> calls that returned true and the \<open>getHistory\<close> calls whose key was in
  the map; when the capacity is at least 1 these are exactly the calls that found an
  existing key.  A read of an unknown key changes nothing, and \<open>getSymbols\<close>,
  \<open>isShutdown\<close>, \<open>getStats\<close>, \<open>waitForData\<close> and \<open>shutdown\<close> change neither counter.
\<close>

theorem getStats_counts_calls:
  assumes "run xs (SharedBuffer_init N) = Inr b"
  shows "getStats b =
      (of_nat (push_calls xs), of_nat (calls_where reads_counted xs (SharedBuffer_init N))) \<and>
    (push_calls xs < 2 ^ 64 \<longrightarrow> unat (fst (getStats b)) = push_calls xs) \<and>
    (calls_where reads_counted xs (SharedBuffer_init N) < 2 ^ 64 \<longrightarrow>
       unat (snd (getStats b)) = calls_where reads_counted xs (SharedBuffer_init N)) \<and>
    (1 \<le> unat N \<longrightarrow>
       calls_where reads_counted xs (SharedBuffer_init N) =
       calls_where reads_key_known xs (SharedBuffer_init N)) \<and>
    (\<not> key_known k b0 \<longrightarrow>
       exec (GetLatest k out) b0 = Inr b0 \<and> exec (GetHistory k c) b0 = Inr b0) \<and>
    exec GetSymbols b0 = Inr b0 \<and> exec IsShutdown b0 = Inr b0 \<and> exec GetStats b0 = Inr b0 \<and>
    exec (WaitForData t) b0 = Inr b0 \<and>
    exec Shutdown b0 = Inr (shutdown b0) \<and> getStats (shutdown b0) = getStats b0"
proof -
  let ?w = "push_calls xs" and ?r = "calls_where reads_counted xs (SharedBuffer_init N)"
  have "total_writes b = of_nat ?w"
    using run_total_writes [OF assms] by (simp add: counters_init)
  moreover have "total_reads b = of_nat ?r"
    using run_total_reads [OF assms] by (simp add: counters_init)
  ultimately have stats: "getStats b = (of_nat ?w, of_nat ?r)"
    by (simp add: getStats_def)
  have writes: "unat (fst (getStats b)) = ?w" if "?w < 2 ^ 64"
    using that by (simp add: stats unat_of_nat)
  have reads: "unat (snd (getStats b)) = ?r" if "?r < 2 ^ 64"
    using that by (simp add: stats unat_of_nat)
  have known: "?r = calls_where reads_key_known xs (SharedBuffer_init N)" if "1 \<le> unat N"
    using that
    by (intro calls_where_counted_known) (simp_all add: histories_nonempty_def SharedBuffer_init_def)
  have unknown: "exec (GetLatest k out) b0 = Inr b0 \<and> exec (GetHistory k c) b0 = Inr b0"
    if "\<not> key_known k b0"
    using that by (simp add: exec_eq key_known_def history_of_def)
  have others: "exec GetSymbols b0 = Inr b0 \<and> exec IsShutdown b0 = Inr b0 \<and>
      exec GetStats b0 = Inr b0 \<and> exec (WaitForData t) b0 = Inr b0 \<and>
      exec Shutdown b0 = Inr (shutdown b0) \<and> getStats (shutdown b0) = getStats b0"
    by (simp add: waitForData_def getStats_def shutdown_def)
  from stats writes reads known unknown others show ?thesis
    by (intro conjI impI) simp_all
qed

theorem getStats_counts_calls_witness:
  "run [Push (PriceData_new ''X'' (10 :: real) 0 1), GetLatest ''X'' (PriceData_default :: real PriceData),
        GetHistory ''Y'' 5, GetHistory ''X'' 5, GetSymbols] (SharedBuffer_init 2 :: real SharedBuffer) =
     Inr ((push (PriceData_new ''X'' (10 :: real) 0 1) (SharedBuffer_init 2 :: real SharedBuffer))\<lparr>total_reads := 2\<rparr>) \<and>
   getStats ((push (PriceData_new ''X'' (10 :: real) 0 1) (SharedBuffer_init 2 :: real SharedBuffer))\<lparr>total_reads := 2\<rparr>) =
     (1, 2) \<and>
   1 \<le> unat (2 :: size_t) \<and>
   calls_where reads_key_known
     [Push (PriceData_new ''X'' (10 :: real) 0 1), GetLatest ''X'' (PriceData_default :: real PriceData),
      GetHistory ''Y'' 5, GetHistory ''X'' 5, GetSymbols] (SharedBuffer_init 2 :: real SharedBuffer) = 2 \<and>
   \<not> key_known ''Y'' (SharedBuffer_init 2 :: real SharedBuffer) \<and>
   exec (GetLatest ''Y'' (PriceData_default :: real PriceData)) (SharedBuffer_init 2 :: real SharedBuffer) = Inr (SharedBuffer_init 2 :: real SharedBuffer)"
proof -
  let ?xs = "[Push (PriceData_new ''X'' (10 :: real) 0 1), GetLatest ''X'' (PriceData_default :: real PriceData),
        GetHistory ''Y'' 5, GetHistory ''X'' 5, GetSymbols]"
  have r: "run ?xs (SharedBuffer_init 2 :: real SharedBuffer) =
     Inr ((push (PriceData_new ''X'' (10 :: real) 0 1) (SharedBuffer_init 2 :: real SharedBuffer))\<lparr>total_reads := 2\<rparr>)"
    by (simp add: getLatest_eq getHistory_eq push_def SharedBuffer_init_def Let_def
        PriceData_new_def)
  have c: "calls_where reads_counted ?xs (SharedBuffer_init 2 :: real SharedBuffer) = 2"
    by (simp add: getLatest_eq getHistory_eq push_def SharedBuffer_init_def Let_def
        PriceData_new_def key_known_def)
  have p: "push_calls ?xs = 1"
    by (simp add: push_calls_def)
  have k: "\<not> key_known ''Y'' (SharedBuffer_init 2 :: real SharedBuffer)"
    by (simp add: key_known_def SharedBuffer_init_def)
  have n: "1 \<le> unat (2 :: size_t)" by simp
  note t = getStats_counts_calls [OF r, of "''Y''" "SharedBuffer_init 2 :: real SharedBuffer" "PriceData_default :: real PriceData" 5 1000]
  from t have "getStats ((push (PriceData_new ''X'' (10 :: real) 0 1) (SharedBuffer_init 2 :: real SharedBuffer))\<lparr>total_reads := 2\<rparr>) =
      (of_nat (push_calls ?xs), of_nat (calls_where reads_counted ?xs (SharedBuffer_init 2 :: real SharedBuffer)))"
    by (rule conjunct1)
  then have g: "getStats ((push (PriceData_new ''X'' (10 :: real) 0 1) (SharedBuffer_init 2 :: real SharedBuffer))\<lparr>total_reads := 2\<rparr>) =
      (1, 2)"
    unfolding c p by simp
  from t n have "calls_where reads_counted ?xs (SharedBuffer_init 2 :: real SharedBuffer) =
      calls_where reads_key_known ?xs (SharedBuffer_init 2 :: real SharedBuffer)"
    by blast
  then have kn: "calls_where reads_key_known ?xs (SharedBuffer_init 2 :: real SharedBuffer) = 2"
    unfolding c by (rule sym)
  from t k have u: "exec (GetLatest ''Y'' (PriceData_default :: real PriceData)) (SharedBuffer_init 2 :: real SharedBuffer) =
      Inr (SharedBuffer_init 2 :: real SharedBuffer)"
    by blast
  from r g n kn k u show ?thesis
    by (intro conjI)
qed

text \<open>
  With capacity 0 the claim as worded fails: a push leaves the key in the map with an
  empty deque, a \<open>getLatest\<close> of that key finds the key, returns false and is not counted.
\<close>

theorem getStats_reads_capacity_zero:
  "run [Push (PriceData_new ''X'' (10 :: real) 0 1), GetLatest ''X'' (PriceData_default :: real PriceData)]
       (SharedBuffer_init 0 :: real SharedBuffer) =
     Inr (push (PriceData_new ''X'' (10 :: real) 0 1) (SharedBuffer_init 0 :: real SharedBuffer)) \<and>
   key_known ''X'' (push (PriceData_new ''X'' (10 :: real) 0 1) (SharedBuffer_init 0 :: real SharedBuffer)) \<and>
   calls_where reads_key_known
     [Push (PriceData_new ''X'' (10 :: real) 0 1), GetLatest ''X'' (PriceData_default :: real PriceData)]
     (SharedBuffer_init 0 :: real SharedBuffer) = 1 \<and>
   snd (getStats (push (PriceData_new ''X'' (10 :: real) 0 1) (SharedBuffer_init 0 :: real SharedBuffer))) = 0"
  by (simp add: getLatest_eq push_def SharedBuffer_init_def Let_def PriceData_new_def
      key_known_def getStats_def)

section \<open>Keys and histories\<close>

text \<open>
  Claim C10.  In every state that a run reaches from a new buffer of capacity at least 1,
  no entry of the map holds an empty deque; \<open>getLatest\<close> returns true for exactly the
  symbols that \<open>getSymbols\<close> lists; and \<open>getSymbols\<close> lists the pushed symbols, each once.
\<close>

theorem keys_have_nonempty_histories:
  assumes "1 \<le> unat N" and "run xs (SharedBuffer_init N) = Inr b"
  shows "histories_nonempty b \<and>
    map_find k (price_history b) \<noteq> Some [] \<and>
    (\<exists>d r. getLatest k out b = Inr (True, d, r)) = (k \<in> set (getSymbols b)) \<and>
    distinct (getSymbols b) \<and>
    set (getSymbols b) = symbol ` set (pushed_data xs)"
proof -
  have "histories_nonempty (SharedBuffer_init N)"
    by (simp add: histories_nonempty_def SharedBuffer_init_def)
  moreover have "1 \<le> unat (max_history_size (SharedBuffer_init N))"
    using assms(1) by (simp add: SharedBuffer_init_def)
  ultimately have inv: "histories_nonempty b"
    by (rule histories_nonempty_run [OF assms(2)])
  have ne: "map_find k (price_history b) \<noteq> Some []"
    using histories_nonempty_find [OF inv, of k "[]"] by auto
  have "(\<exists>d r. getLatest k out b = Inr (True, d, r)) \<longleftrightarrow> map_find k (price_history b) \<noteq> None"
    using ne by (auto simp: getLatest_eq split: option.splits)
  also have "\<dots> \<longleftrightarrow> k \<in> set (getSymbols b)"
    by (simp add: map_find_None_iff getSymbols_def)
  finally have latest: "(\<exists>d r. getLatest k out b = Inr (True, d, r)) = (k \<in> set (getSymbols b))" .
  have "sorted_wrt (<) (getSymbols b)"
    using sorted_keys_run_init [OF assms(2)] by (simp add: getSymbols_def)
  then have dist: "distinct (getSymbols b)"
    by (simp add: strict_sorted_iff)
  have keys: "set (getSymbols b) = symbol ` set (pushed_data xs)"
    using keys_run_init [OF assms(2)] by (simp add: getSymbols_def)
  from inv ne latest dist keys show ?thesis by simp
qed

theorem keys_have_nonempty_histories_witness:
  "1 \<le> unat (1 :: size_t) \<and>
   run [Push (PriceData_new ''MSFT'' (10 :: real) 0 1), Push (PriceData_new ''AAPL'' (7 :: real) 0 2),
        Push (PriceData_new ''MSFT'' (11 :: real) 1 3)] (SharedBuffer_init 1 :: real SharedBuffer) =
     Inr (pushes [PriceData_new ''MSFT'' (10 :: real) 0 1, PriceData_new ''AAPL'' (7 :: real) 0 2,
                  PriceData_new ''MSFT'' (11 :: real) 1 3] (SharedBuffer_init 1 :: real SharedBuffer)) \<and>
   getSymbols (pushes [PriceData_new ''MSFT'' (10 :: real) 0 1, PriceData_new ''AAPL'' (7 :: real) 0 2,
                  PriceData_new ''MSFT'' (11 :: real) 1 3] (SharedBuffer_init 1 :: real SharedBuffer)) = [''AAPL'', ''MSFT''] \<and>
   histories_nonempty (pushes [PriceData_new ''MSFT'' (10 :: real) 0 1, PriceData_new ''AAPL'' (7 :: real) 0 2,
                  PriceData_new ''MSFT'' (11 :: real) 1 3] (SharedBuffer_init 1 :: real SharedBuffer)) \<and>
   distinct (getSymbols (pushes [PriceData_new ''MSFT'' (10 :: real) 0 1, PriceData_new ''AAPL'' (7 :: real) 0 2,
                  PriceData_new ''MSFT'' (11 :: real) 1 3] (SharedBuffer_init 1 :: real SharedBuffer)))"
proof -
  let ?xs = "[Push (PriceData_new ''MSFT'' (10 :: real) 0 1), Push (PriceData_new ''AAPL'' (7 :: real) 0 2),
        Push (PriceData_new ''MSFT'' (11 :: real) 1 3)]"
  let ?b = "pushes [PriceData_new ''MSFT'' (10 :: real) 0 1, PriceData_new ''AAPL'' (7 :: real) 0 2,
                  PriceData_new ''MSFT'' (11 :: real) 1 3] (SharedBuffer_init 1 :: real SharedBuffer)"
  have n: "1 \<le> unat (1 :: size_t)" by simp
  have r: "run ?xs (SharedBuffer_init 1 :: real SharedBuffer) = Inr ?b" by simp
  have s: "getSymbols ?b = [''AAPL'', ''MSFT'']"
    by (simp add: getSymbols_def map_keys_def push_def SharedBuffer_init_def Let_def
        PriceData_new_def)
  show ?thesis
    using keys_have_nonempty_histories [OF n r, of "''MSFT''" "PriceData_default :: real PriceData"] n r s
    by simp
qed


section \<open>The producer loop\<close>

lemma push_then_record_append:
  "push_then_record cs \<Longrightarrow> push_then_record ds \<Longrightarrow> push_then_record (cs @ ds)"
  by (induction cs rule: push_then_record.induct) simp_all

lemma pushes_of_append: "pushes_of (cs @ ds) = pushes_of cs @ pushes_of ds"
  by (induction cs rule: pushes_of.induct) simp_all

lemma push_then_record_prices:
  "push_then_record cs \<Longrightarrow> list_all (\<lambda>d. 1 \<le> price d) (pushes_of cs)"
  by (induction cs rule: push_then_record.induct) simp_all

lemma symbols_loop_step:
  assumes "i < length (symbols (generator w))"
    and "length (current_prices (generator w)) = length (symbols (generator w))"
  shows "symbols_loop noise clock i w =
    symbols_loop noise clock (i + 1)
      (w\<lparr>generator := (generator w)
           \<lparr>current_prices := (current_prices (generator w))
              [i := max 1 (current_prices (generator w) ! i + noise (draws (generator w)))],
            draws := draws (generator w) + 1\<rparr>,
         buffer := push
           (PriceData_new (symbols (generator w) ! i)
              (max 1 (current_prices (generator w) ! i + noise (draws (generator w))))
              (noise (draws (generator w))) (clock (draws (generator w))))
           (buffer w),
         perf_monitor := recordGeneration (symbols (generator w) ! i)
           (clock (draws (generator w))) (perf_monitor w),
         calls := calls w @
           [Call_push
              (PriceData_new (symbols (generator w) ! i)
                 (max 1 (current_prices (generator w) ! i + noise (draws (generator w))))
                 (noise (draws (generator w))) (clock (draws (generator w)))),
            Call_recordGeneration (symbols (generator w) ! i) (clock (draws (generator w)))]\<rparr>)"
proof -
  have m: "(if x < 1 then 1 else x) = max 1 x" for x :: real
    by (simp add: max_def)
  show ?thesis
    using assms
    by (subst symbols_loop.simps) (simp add: Let_def m PriceData_new_def)
qed

lemma symbols_loop_correct:
  assumes "length (current_prices (generator w)) = length (symbols (generator w))"
  shows "\<exists>w' cs. symbols_loop noise clock i w = Inr w' \<and>
     symbols (generator w') = symbols (generator w) \<and>
     length (current_prices (generator w')) = length (symbols (generator w')) \<and>
     calls w' = calls w @ cs \<and> push_then_record cs \<and>
     length cs = 2 * (length (symbols (generator w)) - i) \<and>
     buffer w' = pushes (pushes_of cs) (buffer w)"
  using assms
proof (induction "length (symbols (generator w)) - i" arbitrary: i w)
  case 0
  then have "symbols_loop noise clock i w = Inr w"
    by (subst symbols_loop.simps) simp
  with 0 show ?case by simp
next
  case (Suc k)
  then have i: "i < length (symbols (generator w))" by simp
  let ?p = "max 1 (current_prices (generator w) ! i + noise (draws (generator w)))"
  let ?d = "PriceData_new (symbols (generator w) ! i) ?p
      (noise (draws (generator w))) (clock (draws (generator w)))"
  let ?step = "[Call_push ?d,
      Call_recordGeneration (symbols (generator w) ! i) (clock (draws (generator w)))]"
  let ?w1 = "w\<lparr>generator := (generator w)
           \<lparr>current_prices := (current_prices (generator w))[i := ?p],
            draws := draws (generator w) + 1\<rparr>,
         buffer := push ?d (buffer w),
         perf_monitor := recordGeneration (symbols (generator w) ! i)
           (clock (draws (generator w))) (perf_monitor w),
         calls := calls w @ ?step\<rparr>"
  have unfold: "symbols_loop noise clock i w = symbols_loop noise clock (i + 1) ?w1"
    using i Suc.prems by (rule symbols_loop_step)
  have k: "k = length (symbols (generator ?w1)) - (i + 1)"
    using Suc.hyps(2) by simp
  have inv1: "length (current_prices (generator ?w1)) = length (symbols (generator ?w1))"
    using Suc.prems by simp
  from Suc.hyps(1) [OF k inv1] obtain w' cs where
    r: "symbols_loop noise clock (i + 1) ?w1 = Inr w'"
    and s: "symbols (generator w') = symbols (generator ?w1)"
    and l: "length (current_prices (generator w')) = length (symbols (generator w'))"
    and c: "calls w' = calls ?w1 @ cs"
    and p: "push_then_record cs"
    and n: "length cs = 2 * (length (symbols (generator ?w1)) - (i + 1))"
    and b: "buffer w' = pushes (pushes_of cs) (buffer ?w1)"
    by blast
  have "push_then_record (?step @ cs)"
    using p by (simp add: PriceData_new_def)
  moreover have "calls w' = calls w @ (?step @ cs)"
    using c by simp
  moreover have "length (?step @ cs) = 2 * (length (symbols (generator w)) - i)"
    using n i by simp
  moreover have "buffer w' = pushes (pushes_of (?step @ cs)) (buffer w)"
    using b by simp
  moreover have "symbols (generator w') = symbols (generator w)"
    using s by simp
  ultimately show ?case
    using r l unfold by metis
qed

lemma PriceGenerator_run_correct:
  assumes "length (current_prices (generator w)) = length (symbols (generator w))"
  shows "\<exists>w' cs. PriceGenerator_run noise clock n w = Inr w' \<and>
     calls w' = calls w @ cs \<and> push_then_record cs \<and>
     length cs = 2 * (n * length (symbols (generator w))) \<and>
     buffer w' = pushes (pushes_of cs) (buffer w)"
  using assms
proof (induction n arbitrary: w)
  case 0
  then show ?case by simp
next
  case (Suc n)
  from symbols_loop_correct [OF Suc.prems, of noise clock 0] obtain w1 cs1 where
    r1: "symbols_loop noise clock 0 w = Inr w1"
    and s1: "symbols (generator w1) = symbols (generator w)"
    and l1: "length (current_prices (generator w1)) = length (symbols (generator w1))"
    and c1: "calls w1 = calls w @ cs1"
    and p1: "push_then_record cs1"
    and n1: "length cs1 = 2 * (length (symbols (generator w)) - 0)"
    and b1: "buffer w1 = pushes (pushes_of cs1) (buffer w)"
    by blast
  from Suc.IH [OF l1] obtain w' cs where
    r: "PriceGenerator_run noise clock n w1 = Inr w'"
    and c: "calls w' = calls w1 @ cs"
    and p: "push_then_record cs"
    and n: "length cs = 2 * (n * length (symbols (generator w1)))"
    and b: "buffer w' = pushes (pushes_of cs) (buffer w1)"
    by blast
  have "PriceGenerator_run noise clock (Suc n) w = Inr w'"
    using r1 r by simp
  moreover have "calls w' = calls w @ (cs1 @ cs)"
    using c c1 by simp
  moreover have "push_then_record (cs1 @ cs)"
    using p1 p by (rule push_then_record_append)
  moreover have "length (cs1 @ cs) = 2 * (Suc n * length (symbols (generator w)))"
    using n1 n s1 by simp
  moreover have "buffer w' = pushes (pushes_of (cs1 @ cs)) (buffer w)"
    using b b1 by (simp add: pushes_of_append pushes_append)
  ultimately show ?case by blast
qed


text \<open>
  Claim C8.  The constructor gives every symbol a current price.  For every symbol, one
  pass of the inner loop draws a noise value, sets the price to the previous price plus
  the noise, raised to 1 when it is below 1, pushes an observation with the symbol, that
  price, the noise and the instant read, and then records the generation of the same
  symbol and instant.  A run of any number of iterations never faults, makes exactly one
  such pair of calls per symbol and iteration, and leaves the buffer as these pushes
  leave it; so every observation the producer pushes has a price of at least 1, whatever
  the noise values are.
\<close>

theorem producer_pushes_prices_at_least_one:
  assumes "length (current_prices (generator w)) = length (symbols (generator w))"
  shows "(i < length (symbols (generator w)) \<longrightarrow>
      symbols_loop noise clock i w =
      symbols_loop noise clock (i + 1)
        (w\<lparr>generator := (generator w)
             \<lparr>current_prices := (current_prices (generator w))
                [i := max 1 (current_prices (generator w) ! i + noise (draws (generator w)))],
              draws := draws (generator w) + 1\<rparr>,
           buffer := push
             (PriceData_new (symbols (generator w) ! i)
                (max 1 (current_prices (generator w) ! i + noise (draws (generator w))))
                (noise (draws (generator w))) (clock (draws (generator w))))
             (buffer w),
           perf_monitor := recordGeneration (symbols (generator w) ! i)
             (clock (draws (generator w))) (perf_monitor w),
           calls := calls w @
             [Call_push
                (PriceData_new (symbols (generator w) ! i)
                   (max 1 (current_prices (generator w) ! i + noise (draws (generator w))))
                   (noise (draws (generator w))) (clock (draws (generator w)))),
              Call_recordGeneration (symbols (generator w) ! i)
                (clock (draws (generator w)))]\<rparr>)) \<and>
    (\<exists>w' cs. PriceGenerator_run noise clock n w = Inr w' \<and>
       calls w' = calls w @ cs \<and> push_then_record cs \<and>
       length cs = 2 * (n * length (symbols (generator w))) \<and>
       buffer w' = pushes (pushes_of cs) (buffer w) \<and>
       list_all (\<lambda>d. 1 \<le> price d) (pushes_of cs)) \<and>
    length (current_prices (PriceGenerator_init syms init_price)) =
      length (symbols (PriceGenerator_init syms init_price))"
proof (intro conjI impI)
  assume "i < length (symbols (generator w))"
  then show "symbols_loop noise clock i w =
      symbols_loop noise clock (i + 1)
        (w\<lparr>generator := (generator w)
             \<lparr>current_prices := (current_prices (generator w))
                [i := max 1 (current_prices (generator w) ! i + noise (draws (generator w)))],
              draws := draws (generator w) + 1\<rparr>,
           buffer := push
             (PriceData_new (symbols (generator w) ! i)
                (max 1 (current_prices (generator w) ! i + noise (draws (generator w))))
                (noise (draws (generator w))) (clock (draws (generator w))))
             (buffer w),
           perf_monitor := recordGeneration (symbols (generator w) ! i)
             (clock (draws (generator w))) (perf_monitor w),
           calls := calls w @
             [Call_push
                (PriceData_new (symbols (generator w) ! i)
                   (max 1 (current_prices (generator w) ! i + noise (draws (generator w))))
                   (noise (draws (generator w))) (clock (draws (generator w)))),
              Call_recordGeneration (symbols (generator w) ! i)
                (clock (draws (generator w)))]\<rparr>)"
    using assms by (rule symbols_loop_step)
next
  from PriceGenerator_run_correct [OF assms, of noise clock n] obtain w' cs where
    "PriceGenerator_run noise clock n w = Inr w'" and "calls w' = calls w @ cs"
    and "push_then_record cs" and "length cs = 2 * (n * length (symbols (generator w)))"
    and "buffer w' = pushes (pushes_of cs) (buffer w)"
    by blast
  moreover from this(3) have "list_all (\<lambda>d. 1 \<le> price d) (pushes_of cs)"
    by (rule push_then_record_prices)
  ultimately show "\<exists>w' cs. PriceGenerator_run noise clock n w = Inr w' \<and>
       calls w' = calls w @ cs \<and> push_then_record cs \<and>
       length cs = 2 * (n * length (symbols (generator w))) \<and>
       buffer w' = pushes (pushes_of cs) (buffer w) \<and>
       list_all (\<lambda>d. 1 \<le> price d) (pushes_of cs)"
    by blast
next
  show "length (current_prices (PriceGenerator_init syms init_price)) =
      length (symbols (PriceGenerator_init syms init_price))"
    by (simp add: PriceGenerator_init_def)
qed

theorem producer_pushes_prices_at_least_one_witness:
  "length (current_prices (PriceGenerator_init [''BTC''] (\<lambda>k. 100))) =
     length (symbols (PriceGenerator_init [''BTC''] (\<lambda>k. 100))) \<and>
   (0 :: nat) < length (symbols (PriceGenerator_init [''BTC''] (\<lambda>k. 100))) \<and>
   map_sum id calls
     (PriceGenerator_run (\<lambda>k. - 200) (\<lambda>k. 7 + k) 1
        \<lparr>generator = PriceGenerator_init [''BTC''] (\<lambda>k. 100),
         buffer = SharedBuffer_init 100,
         perf_monitor = PerformanceMonitor_init 0,
         calls = []\<rparr>) =
     Inr [Call_push \<lparr>symbol = ''BTC'', price = 1, change = - 200, timestamp = 7\<rparr>,
          Call_recordGeneration ''BTC'' 7]"
proof -
  let ?w = "\<lparr>generator = PriceGenerator_init [''BTC''] (\<lambda>k. 100),
         buffer = SharedBuffer_init 100,
         perf_monitor = PerformanceMonitor_init 0,
         calls = []\<rparr>"
  have inv: "length (current_prices (generator ?w)) = length (symbols (generator ?w))"
    by (simp add: PriceGenerator_init_def)
  have i: "(0 :: nat) < length (symbols (generator ?w))"
    by (simp add: PriceGenerator_init_def)
  from producer_pushes_prices_at_least_one [OF inv, of 0 "\<lambda>k. - 200" "\<lambda>k. 7 + k"] i
  have "symbols_loop (\<lambda>k. - 200) (\<lambda>k. 7 + k) 0 ?w =
      symbols_loop (\<lambda>k. - 200) (\<lambda>k. 7 + k) (0 + 1)
        (?w\<lparr>generator := (generator ?w)
             \<lparr>current_prices := (current_prices (generator ?w))
                [0 := max 1 (current_prices (generator ?w) ! 0 + - 200)],
              draws := draws (generator ?w) + 1\<rparr>,
           buffer := push
             (PriceData_new (symbols (generator ?w) ! 0)
                (max 1 (current_prices (generator ?w) ! 0 + - 200))
                (- 200) (7 + draws (generator ?w)))
             (buffer ?w),
           perf_monitor := recordGeneration (symbols (generator ?w) ! 0)
             (7 + draws (generator ?w)) (perf_monitor ?w),
           calls := calls ?w @
             [Call_push
                (PriceData_new (symbols (generator ?w) ! 0)
                   (max 1 (current_prices (generator ?w) ! 0 + - 200))
                   (- 200) (7 + draws (generator ?w))),
              Call_recordGeneration (symbols (generator ?w) ! 0)
                (7 + draws (generator ?w))]\<rparr>)"
    by blast
  then have "map_sum id calls (PriceGenerator_run (\<lambda>k. - 200) (\<lambda>k. 7 + k) 1 ?w) =
     Inr [Call_push \<lparr>symbol = ''BTC'', price = 1, change = - 200, timestamp = 7\<rparr>,
          Call_recordGeneration ''BTC'' 7]"
    by (simp add: symbols_loop.simps [of _ _ "Suc 0"] PriceGenerator_init_def PriceData_new_def)
  with inv i show ?thesis by simp
qed

section \<open>The loops of the consumers\<close>

lemma sum_prices_eq: "sum_prices A history acc = foldl (fadd A) acc (map price history)"
  by (induction history arbitrary: acc) simp_all

lemma accumulate_eq: "accumulate A xs init = foldl (fadd A) init xs"
  by (induction xs arbitrary: init) simp_all

lemma variance_loop_eq:
  "variance_loop A returns m v =
     foldl (fadd A) v (map (\<lambda>x. fmul A (fsub A x m) (fsub A x m)) returns)"
  by (induction returns arbitrary: v) simp_all

lemma returns_loop_eq:
  "returns_loop A history i returns =
     returns @ map (\<lambda>j. fdiv A (fsub A (price (history ! j)) (price (history ! (j - 1))))
                         (price (history ! (j - 1)))) [i..<length history]"
proof (induction A history i returns rule: returns_loop.induct)
  case (1 A history i returns)
  show ?case
  proof (cases "i < length history")
    case True
    then have "[i..<length history] = i # [i + 1..<length history]"
      by (simp add: upt_conv_Cons)
    then show ?thesis
      using True "1.IH" by (subst returns_loop.simps) (simp add: Let_def)
  next
    case False
    then show ?thesis by (subst returns_loop.simps) simp
  qed
qed

lemma returns_loop_spec:
  "returns_loop A history (Suc 0) [] = spec_returns A (map price history)"
proof -
  have "fdiv A (fsub A (price (history ! j)) (price (history ! (j - 1))))
          (price (history ! (j - 1))) =
      fdiv A (fsub A (map price history ! j) (map price history ! (j - 1)))
          (map price history ! (j - 1))"
    if "j \<in> set [1..<length history]" for j
  proof -
    from that have "j < length history" and "j - 1 < length history" by auto
    then show ?thesis by (simp only: nth_map)
  qed
  then show ?thesis
    by (simp add: returns_loop_eq spec_returns_def cong: map_cong)
qed

lemma SMACalculator_calc_spec:
  "SMACalculator_calc A history =
     (if length history < 2 then None
      else Some (spec_mean A (map price history),
                 fmul A (fdiv A (fsub A (price (last history)) (spec_mean A (map price history)))
                           (spec_mean A (map price history))) (dbl A 100)))"
  by (simp add: SMACalculator_calc_def Let_def sum_prices_eq spec_mean_def spec_sum_def)

lemma VolatilityCalculator_calc_spec:
  "VolatilityCalculator_calc A history =
     (if length history < 3 then None
      else Some (spec_volatility A (map price history),
                 classify A (spec_volatility A (map price history))))"
  by (simp add: VolatilityCalculator_calc_def Let_def returns_loop_spec accumulate_eq
      variance_loop_eq spec_volatility_def population_stddev_def spec_mean_def spec_sum_def)

section \<open>Arithmetic that rounds correctly\<close>

lemma ieee_real_ops: "ieee_double real_ops (\<lambda>x. True) (\<lambda>x. x)"
  by (simp add: ieee_double_def correctly_rounded_def real_ops_def)

lemma ieee_dbl:
  assumes "ieee_double A fin val" and "\<bar>k\<bar> \<le> 2 ^ 53" and "j \<le> 1022"
  shows "fin (dbl A (real_of_int k / 2 ^ j))"
    and "val (dbl A (real_of_int k / 2 ^ j)) = real_of_int k / 2 ^ j"
  using assms unfolding ieee_double_def by blast+

lemma ieee_dbl_int:
  assumes "ieee_double A fin val" and "\<bar>k\<bar> \<le> 2 ^ 53"
  shows "fin (dbl A (real_of_int k))" and "val (dbl A (real_of_int k)) = real_of_int k"
  using ieee_dbl [OF assms, of 0] by simp_all

lemma ieee_of_size:
  assumes "ieee_double A fin val" and "n \<le> 2 ^ 53"
  shows "fin (of_size A n)" and "val (of_size A n) = real n"
  using assms unfolding ieee_double_def by blast+

lemma ieee_flt:
  assumes "ieee_double A fin val" and "fin a" and "fin b"
  shows "flt A a b = (val a < val b)"
  using assms unfolding ieee_double_def by blast

lemma ieee_ops:
  assumes "ieee_double A fin val" and "fin a" and "fin b"
  shows "correctly_rounded fin val (val a + val b) (fadd A a b)"
    and "correctly_rounded fin val (val a - val b) (fsub A a b)"
    and "correctly_rounded fin val (val a * val b) (fmul A a b)"
    and "val b \<noteq> 0 \<Longrightarrow> correctly_rounded fin val (val a / val b) (fdiv A a b)"
  using assms unfolding ieee_double_def by blast+

lemma ieee_sqrt:
  assumes "ieee_double A fin val" and "fin a" and "0 \<le> val a"
  shows "correctly_rounded fin val (sqrt (val a)) (fsqrt A a)"
  using assms unfolding ieee_double_def by blast

lemma rounded_exact:
  assumes "correctly_rounded fin val x r" and "fin c" and "val c = x"
  shows "fin r \<and> val r = x"
  using assms unfolding correctly_rounded_def by blast

lemma rounded_between:
  assumes "correctly_rounded fin val x r"
    and "l \<le> x" and "x \<le> h"
    and "1 / 10 ^ 30 \<le> l \<and> h \<le> 10 ^ 30 \<and>
           L \<le> l * (1 - 1 / 10 ^ 15) \<and> h * (1 + 1 / 10 ^ 15) \<le> U \<or>
         - (10 ^ 30) \<le> l \<and> h \<le> - (1 / 10 ^ 30) \<and>
           L \<le> l * (1 + 1 / 10 ^ 15) \<and> h * (1 - 1 / 10 ^ 15) \<le> U"
  shows "fin r \<and> L \<le> val r \<and> val r \<le> U"
proof -
  have small: "(1 :: real) / 2 ^ 1022 \<le> 1 / 10 ^ 30" and big: "(10 :: real) ^ 300 \<le> 2 ^ 1023"
    and eps: "(1 :: real) / 2 ^ 53 \<le> 1 / 10 ^ 15"
    by simp_all
  from assms(4) have range: "1 / 2 ^ 1022 \<le> \<bar>x\<bar> \<and> \<bar>x\<bar> \<le> 2 ^ 1023"
    using assms(2,3) small big by (auto simp: abs_if)
  with assms(1) have fin: "fin r" and near: "\<bar>val r - x\<bar> \<le> \<bar>x\<bar> / 2 ^ 53"
    unfolding correctly_rounded_def by blast+
  have "\<bar>x\<bar> / 2 ^ 53 \<le> \<bar>x\<bar> * (1 / 10 ^ 15)"
    using mult_left_mono [OF eps, of "\<bar>x\<bar>"] by simp
  with near have err: "\<bar>val r - x\<bar> \<le> \<bar>x\<bar> * (1 / 10 ^ 15)" by linarith
  from assms(4) show ?thesis
  proof
    assume p: "1 / 10 ^ 30 \<le> l \<and> h \<le> 10 ^ 30 \<and>
           L \<le> l * (1 - 1 / 10 ^ 15) \<and> h * (1 + 1 / 10 ^ 15) \<le> U"
    moreover have "(0 :: real) < 1 / 10 ^ 30" by simp
    ultimately have "0 < l" by linarith
    with assms(2) have x: "0 < x" by linarith
    have "l * (1 - 1 / 10 ^ 15) \<le> x * (1 - 1 / 10 ^ 15)"
      using assms(2) by (intro mult_right_mono) simp_all
    moreover have "x * (1 + 1 / 10 ^ 15) \<le> h * (1 + 1 / 10 ^ 15)"
      using assms(3) by (intro mult_right_mono) simp_all
    moreover have "x * (1 - 1 / 10 ^ 15) \<le> val r" and "val r \<le> x * (1 + 1 / 10 ^ 15)"
      using err x by (simp_all add: algebra_simps abs_if split: if_splits)
    ultimately show ?thesis using fin p by simp
  next
    assume n: "- (10 ^ 30) \<le> l \<and> h \<le> - (1 / 10 ^ 30) \<and>
           L \<le> l * (1 + 1 / 10 ^ 15) \<and> h * (1 - 1 / 10 ^ 15) \<le> U"
    moreover have "(0 :: real) < 1 / 10 ^ 30" by simp
    ultimately have "h < 0" by linarith
    with assms(3) have x: "x < 0" by linarith
    have "l * (1 + 1 / 10 ^ 15) \<le> x * (1 + 1 / 10 ^ 15)"
      using assms(2) by (intro mult_right_mono) simp_all
    moreover have "x * (1 - 1 / 10 ^ 15) \<le> h * (1 - 1 / 10 ^ 15)"
      using assms(3) by (intro mult_right_mono) simp_all
    moreover have "x * (1 + 1 / 10 ^ 15) \<le> val r" and "val r \<le> x * (1 - 1 / 10 ^ 15)"
      using err x by (simp_all add: algebra_simps abs_if split: if_splits)
    ultimately show ?thesis using fin n by simp
  qed
qed

lemma square_between:
  fixes d :: real
  assumes "l \<le> d" and "d \<le> h"
  shows "0 \<le> l \<Longrightarrow> l * l \<le> d * d \<and> d * d \<le> h * h"
    and "h \<le> 0 \<Longrightarrow> h * h \<le> d * d \<and> d * d \<le> l * l"
proof -
  show "l * l \<le> d * d \<and> d * d \<le> h * h" if "0 \<le> l"
    using that assms by (auto intro!: mult_mono)
  show "h * h \<le> d * d \<and> d * d \<le> l * l" if "h \<le> 0"
  proof -
    have "(- h) * (- h) \<le> (- d) * (- d)"
      using that assms by (intro mult_mono) linarith+
    moreover have "(- d) * (- d) \<le> (- l) * (- l)"
      using that assms by (intro mult_mono) linarith+
    ultimately show ?thesis by simp
  qed
qed

lemma product_between:
  fixes a b :: real
  assumes "0 \<le> la" and "la \<le> a" and "a \<le> ha" and "0 \<le> lb" and "lb \<le> b" and "b \<le> hb"
  shows "la * lb \<le> a * b \<and> a * b \<le> ha * hb"
  using assms by (auto intro!: mult_mono)

lemma sqrt_between:
  fixes v :: real
  assumes "l \<le> v" and "v \<le> h" and "0 \<le> sl" and "sl * sl \<le> l" and "0 \<le> sh" and "h \<le> sh * sh"
  shows "sl \<le> sqrt v \<and> sqrt v \<le> sh"
proof -
  have "sl\<^sup>2 \<le> v" using assms(1,4) by (simp add: power2_eq_square)
  then have "sl \<le> sqrt v" by (rule real_le_rsqrt)
  moreover have "v \<le> sh\<^sup>2" using assms(2,6) by (simp add: power2_eq_square)
  then have "sqrt v \<le> sh" using assms(5) by (intro real_le_lsqrt) simp_all
  ultimately show ?thesis by simp
qed

lemma sma_sample_ieee:
  assumes H: "ieee_double A fin val"
  shows "\<exists>m d. SMACalculator_calc A (priced A [10, 20, 30]) = Some (m, d) \<and>
     fin m \<and> val m = 20 \<and> fin d \<and> val d = 50"
proof -
  have int: "fin (dbl A (real_of_int k)) \<and> val (dbl A (real_of_int k)) = real_of_int k"
    if "\<bar>k\<bar> \<le> 100" for k
    using ieee_dbl_int [OF H, of k] that by simp
  have z: "fin (dbl A 0) \<and> val (dbl A 0) = 0" using int [of 0] by simp
  have p10: "fin (dbl A 10) \<and> val (dbl A 10) = 10" using int [of 10] by simp
  have p20: "fin (dbl A 20) \<and> val (dbl A 20) = 20" using int [of 20] by simp
  have p30: "fin (dbl A 30) \<and> val (dbl A 30) = 30" using int [of 30] by simp
  have p50: "fin (dbl A 50) \<and> val (dbl A 50) = 50" using int [of 50] by simp
  have p60: "fin (dbl A 60) \<and> val (dbl A 60) = 60" using int [of 60] by simp
  have p100: "fin (dbl A 100) \<and> val (dbl A 100) = 100" using int [of 100] by simp
  have half: "fin (dbl A (1 / 2)) \<and> val (dbl A (1 / 2)) = 1 / 2"
    using ieee_dbl [OF H, of 1 1] by simp
  have three: "fin (of_size A 3) \<and> val (of_size A 3) = 3"
    using ieee_of_size [OF H, of 3] by simp
  let ?s1 = "fadd A (dbl A 0) (dbl A 10)"
  let ?s2 = "fadd A ?s1 (dbl A 20)"
  let ?s3 = "fadd A ?s2 (dbl A 30)"
  let ?m = "fdiv A ?s3 (of_size A 3)"
  let ?e = "fsub A (dbl A 30) ?m"
  let ?q = "fdiv A ?e ?m"
  let ?d = "fmul A ?q (dbl A 100)"
  have s1: "fin ?s1 \<and> val ?s1 = 10"
    using rounded_exact [OF ieee_ops(1) [OF H], of "dbl A 0" "dbl A 10" "dbl A 10"] z p10 by simp
  have s2: "fin ?s2 \<and> val ?s2 = 30"
    using rounded_exact [OF ieee_ops(1) [OF H], of ?s1 "dbl A 20" "dbl A 30"] s1 p20 p30 by simp
  have s3: "fin ?s3 \<and> val ?s3 = 60"
    using rounded_exact [OF ieee_ops(1) [OF H], of ?s2 "dbl A 30" "dbl A 60"] s2 p30 p60 by simp
  have m: "fin ?m \<and> val ?m = 20"
    using rounded_exact [OF ieee_ops(4) [OF H], of ?s3 "of_size A 3" "dbl A 20"] s3 three p20
    by simp
  have e: "fin ?e \<and> val ?e = 10"
    using rounded_exact [OF ieee_ops(2) [OF H], of "dbl A 30" ?m "dbl A 10"] p30 m p10 by simp
  have q: "fin ?q \<and> val ?q = 1 / 2"
    using rounded_exact [OF ieee_ops(4) [OF H], of ?e ?m "dbl A (1 / 2)"] e m half by simp
  have d: "fin ?d \<and> val ?d = 50"
    using rounded_exact [OF ieee_ops(3) [OF H], of ?q "dbl A 100" "dbl A 50"] q p100 p50 by simp
  have "SMACalculator_calc A (priced A [10, 20, 30]) = Some (?m, ?d)"
    by (simp add: SMACalculator_calc_spec priced_def PriceData_new_def spec_mean_def spec_sum_def
        numeral_3_eq_3)
  with m d show ?thesis by blast
qed

lemma volatility_sample_ieee:
  assumes H: "ieee_double A fin val"
  shows "\<exists>a. VolatilityCalculator_calc A (priced A [100, 101, 99, 100]) = Some (a, MODERATE) \<and>
     fin a \<and> 22 < val a \<and> val a < 23"
proof -
  have int: "fin (dbl A (real_of_int k)) \<and> val (dbl A (real_of_int k)) = real_of_int k"
    if "\<bar>k\<bar> \<le> 1000" for k
    using ieee_dbl_int [OF H, of k] that by simp
  let ?p99 = "dbl A 99" and ?p100 = "dbl A 100" and ?p101 = "dbl A 101" and ?p252 = "dbl A 252"
  let ?three = "of_size A 3"
  have z: "fin (dbl A 0) \<and> val (dbl A 0) = 0" using int [of 0] by simp
  have one: "fin (dbl A 1) \<and> val (dbl A 1) = 1" using int [of 1] by simp
  have mtwo: "fin (dbl A (- 2)) \<and> val (dbl A (- 2)) = - 2" using int [of "- 2"] by simp
  have p15: "fin (dbl A 15) \<and> val (dbl A 15) = 15" using int [of 15] by simp
  have p30: "fin (dbl A 30) \<and> val (dbl A 30) = 30" using int [of 30] by simp
  have p99: "fin ?p99 \<and> val ?p99 = 99" using int [of 99] by simp
  have p100: "fin ?p100 \<and> val ?p100 = 100" using int [of 100] by simp
  have p101: "fin ?p101 \<and> val ?p101 = 101" using int [of 101] by simp
  have p252: "fin ?p252 \<and> val ?p252 = 252" using int [of 252] by simp
  have three: "fin ?three \<and> val ?three = 3"
    using ieee_of_size [OF H, of 3] by simp
  let ?n1 = "fsub A ?p101 ?p100" and ?n2 = "fsub A ?p99 ?p101" and ?n3 = "fsub A ?p100 ?p99"
  let ?r1 = "fdiv A ?n1 ?p100" and ?r2 = "fdiv A ?n2 ?p101" and ?r3 = "fdiv A ?n3 ?p99"
  let ?a0 = "fadd A (dbl A 0) ?r1"
  let ?a1 = "fadd A ?a0 ?r2"
  let ?a2 = "fadd A ?a1 ?r3"
  let ?mean = "fdiv A ?a2 ?three"
  let ?d1 = "fsub A ?r1 ?mean" and ?d2 = "fsub A ?r2 ?mean" and ?d3 = "fsub A ?r3 ?mean"
  let ?q1 = "fmul A ?d1 ?d1" and ?q2 = "fmul A ?d2 ?d2" and ?q3 = "fmul A ?d3 ?d3"
  let ?v0 = "fadd A (dbl A 0) ?q1"
  let ?v1 = "fadd A ?v0 ?q2"
  let ?v2 = "fadd A ?v1 ?q3"
  let ?var = "fdiv A ?v2 ?three"
  let ?vol = "fsqrt A ?var"
  let ?s252 = "fsqrt A ?p252"
  let ?t = "fmul A ?vol ?s252"
  let ?ann = "fmul A ?t ?p100"
  have n1: "fin ?n1 \<and> val ?n1 = 1"
    using rounded_exact [OF ieee_ops(2) [OF H], of ?p101 ?p100 "dbl A 1"] p101 p100 one by simp
  have n2: "fin ?n2 \<and> val ?n2 = - 2"
    using rounded_exact [OF ieee_ops(2) [OF H], of ?p99 ?p101 "dbl A (- 2)"] p99 p101 mtwo by simp
  have n3: "fin ?n3 \<and> val ?n3 = 1"
    using rounded_exact [OF ieee_ops(2) [OF H], of ?p100 ?p99 "dbl A 1"] p100 p99 one by simp
  have r1: "fin ?r1 \<and> 9999999999999990 / 10 ^ 18 \<le> val ?r1 \<and> val ?r1 \<le> 10000000000000010 / 10 ^ 18"
  proof (rule rounded_between [where fin = fin and val = val and r = "?r1" and x = "val ?n1 / val ?p100"
        and l = "1 / 100" and h = "1 / 100"])
    show "correctly_rounded fin val (val ?n1 / val ?p100) ?r1"
      using n1 p100 by (intro ieee_ops(4) [OF H]) simp_all
    show "1 / 100 \<le> val ?n1 / val ?p100" and "val ?n1 / val ?p100 \<le> 1 / 100"
      using n1 p100 by simp_all
  qed simp
  have r2: "fin ?r2 \<and> - (19801980198019822 / 10 ^ 18) \<le> val ?r2 \<and> val ?r2 \<le> - (19801980198019782 / 10 ^ 18)"
  proof (rule rounded_between [where fin = fin and val = val and r = "?r2" and x = "val ?n2 / val ?p101"
        and l = "- 2 / 101" and h = "- 2 / 101"])
    show "correctly_rounded fin val (val ?n2 / val ?p101) ?r2"
      using n2 p101 by (intro ieee_ops(4) [OF H]) simp_all
    show "- 2 / 101 \<le> val ?n2 / val ?p101" and "val ?n2 / val ?p101 \<le> - 2 / 101"
      using n2 p101 by simp_all
  qed simp
  have r3: "fin ?r3 \<and> 10101010101010090 / 10 ^ 18 \<le> val ?r3 \<and> val ?r3 \<le> 10101010101010112 / 10 ^ 18"
  proof (rule rounded_between [where fin = fin and val = val and r = "?r3" and x = "val ?n3 / val ?p99"
        and l = "1 / 99" and h = "1 / 99"])
    show "correctly_rounded fin val (val ?n3 / val ?p99) ?r3"
      using n3 p99 by (intro ieee_ops(4) [OF H]) simp_all
    show "1 / 99 \<le> val ?n3 / val ?p99" and "val ?n3 / val ?p99 \<le> 1 / 99"
      using n3 p99 by simp_all
  qed simp
  have a0: "fin ?a0 \<and> 9999999999999990 / 10 ^ 18 \<le> val ?a0 \<and> val ?a0 \<le> 10000000000000010 / 10 ^ 18"
    using rounded_exact [OF ieee_ops(1) [OF H], of "dbl A 0" ?r1 ?r1] z r1 by simp
  have a1: "fin ?a1 \<and> - (9801980198019842 / 10 ^ 18) \<le> val ?a1 \<and> val ?a1 \<le> - (9801980198019762 / 10 ^ 18)"
  proof (rule rounded_between [where fin = fin and val = val and r = "?a1" and x = "val ?a0 + val ?r2"
        and l = "- (9801980198019832 / 10 ^ 18)" and h = "- (9801980198019772 / 10 ^ 18)"])
    show "correctly_rounded fin val (val ?a0 + val ?r2) ?a1"
      using a0 r2 by (intro ieee_ops(1) [OF H]) simp_all
    show "- (9801980198019832 / 10 ^ 18) \<le> val ?a0 + val ?r2" and "val ?a0 + val ?r2 \<le> - (9801980198019772 / 10 ^ 18)"
      using a0 r2 by simp_all
  qed simp
  have a2: "fin ?a2 \<and> 299029902990247 / 10 ^ 18 \<le> val ?a2 \<and> val ?a2 \<le> 299029902990351 / 10 ^ 18"
  proof (rule rounded_between [where fin = fin and val = val and r = "?a2" and x = "val ?a1 + val ?r3"
        and l = "299029902990248 / 10 ^ 18" and h = "299029902990350 / 10 ^ 18"])
    show "correctly_rounded fin val (val ?a1 + val ?r3) ?a2"
      using a1 r3 by (intro ieee_ops(1) [OF H]) simp_all
    show "299029902990248 / 10 ^ 18 \<le> val ?a1 + val ?r3" and "val ?a1 + val ?r3 \<le> 299029902990350 / 10 ^ 18"
      using a1 r3 by simp_all
  qed simp
  have mean: "fin ?mean \<and> 99676634330081 / 10 ^ 18 \<le> val ?mean \<and> val ?mean \<le> 99676634330118 / 10 ^ 18"
  proof (rule rounded_between [where fin = fin and val = val and r = "?mean" and x = "val ?a2 / val ?three"
        and l = "99676634330082 / 10 ^ 18" and h = "99676634330117 / 10 ^ 18"])
    show "correctly_rounded fin val (val ?a2 / val ?three) ?mean"
      using a2 three by (intro ieee_ops(4) [OF H]) simp_all
    show "99676634330082 / 10 ^ 18 \<le> val ?a2 / val ?three" and "val ?a2 / val ?three \<le> 99676634330117 / 10 ^ 18"
      using a2 three by simp_all
  qed simp
  have d1: "fin ?d1 \<and> 9900323365669862 / 10 ^ 18 \<le> val ?d1 \<and> val ?d1 \<le> 9900323365669939 / 10 ^ 18"
  proof (rule rounded_between [where fin = fin and val = val and r = "?d1" and x = "val ?r1 - val ?mean"
        and l = "9900323365669872 / 10 ^ 18" and h = "9900323365669929 / 10 ^ 18"])
    show "correctly_rounded fin val (val ?r1 - val ?mean) ?d1"
      using r1 mean by (intro ieee_ops(2) [OF H]) simp_all
    show "9900323365669872 / 10 ^ 18 \<le> val ?r1 - val ?mean" and "val ?r1 - val ?mean \<le> 9900323365669929 / 10 ^ 18"
      using r1 mean by simp_all
  qed simp
  have d2: "fin ?d2 \<and> - (19901656832349960 / 10 ^ 18) \<le> val ?d2 \<and> val ?d2 \<le> - (19901656832349843 / 10 ^ 18)"
  proof (rule rounded_between [where fin = fin and val = val and r = "?d2" and x = "val ?r2 - val ?mean"
        and l = "- (19901656832349940 / 10 ^ 18)" and h = "- (19901656832349863 / 10 ^ 18)"])
    show "correctly_rounded fin val (val ?r2 - val ?mean) ?d2"
      using r2 mean by (intro ieee_ops(2) [OF H]) simp_all
    show "- (19901656832349940 / 10 ^ 18) \<le> val ?r2 - val ?mean" and "val ?r2 - val ?mean \<le> - (19901656832349863 / 10 ^ 18)"
      using r2 mean by simp_all
  qed simp
  have d3: "fin ?d3 \<and> 10001333466679961 / 10 ^ 18 \<le> val ?d3 \<and> val ?d3 \<le> 10001333466680042 / 10 ^ 18"
  proof (rule rounded_between [where fin = fin and val = val and r = "?d3" and x = "val ?r3 - val ?mean"
        and l = "10001333466679972 / 10 ^ 18" and h = "10001333466680031 / 10 ^ 18"])
    show "correctly_rounded fin val (val ?r3 - val ?mean) ?d3"
      using r3 mean by (intro ieee_ops(2) [OF H]) simp_all
    show "10001333466679972 / 10 ^ 18 \<le> val ?r3 - val ?mean" and "val ?r3 - val ?mean \<le> 10001333466680031 / 10 ^ 18"
      using r3 mean by simp_all
  qed simp
  have q1: "fin ?q1 \<and> 98016402744828 / 10 ^ 18 \<le> val ?q1 \<and> val ?q1 \<le> 98016402744831 / 10 ^ 18"
  proof (rule rounded_between [where fin = fin and val = val and r = "?q1" and x = "val ?d1 * val ?d1"
        and l = "(9900323365669862 / 10 ^ 18) * (9900323365669862 / 10 ^ 18)" and h = "(9900323365669939 / 10 ^ 18) * (9900323365669939 / 10 ^ 18)"])
    show "correctly_rounded fin val (val ?d1 * val ?d1) ?q1"
      using d1 by (intro ieee_ops(3) [OF H]) simp_all
    show "(9900323365669862 / 10 ^ 18) * (9900323365669862 / 10 ^ 18) \<le> val ?d1 * val ?d1" and "val ?d1 * val ?d1 \<le> (9900323365669939 / 10 ^ 18) * (9900323365669939 / 10 ^ 18)"
      using square_between(1) [of "9900323365669862 / 10 ^ 18" "val ?d1" "9900323365669939 / 10 ^ 18"] d1 by simp_all
  qed simp
  have q2: "fin ?q2 \<and> 396075944672616 / 10 ^ 18 \<le> val ?q2 \<and> val ?q2 \<le> 396075944672623 / 10 ^ 18"
  proof (rule rounded_between [where fin = fin and val = val and r = "?q2" and x = "val ?d2 * val ?d2"
        and l = "(- (19901656832349843 / 10 ^ 18)) * (- (19901656832349843 / 10 ^ 18))" and h = "(- (19901656832349960 / 10 ^ 18)) * (- (19901656832349960 / 10 ^ 18))"])
    show "correctly_rounded fin val (val ?d2 * val ?d2) ?q2"
      using d2 by (intro ieee_ops(3) [OF H]) simp_all
    show "(- (19901656832349843 / 10 ^ 18)) * (- (19901656832349843 / 10 ^ 18)) \<le> val ?d2 * val ?d2" and "val ?d2 * val ?d2 \<le> (- (19901656832349960 / 10 ^ 18)) * (- (19901656832349960 / 10 ^ 18))"
      using square_between(2) [of "- (19901656832349960 / 10 ^ 18)" "val ?d2" "- (19901656832349843 / 10 ^ 18)"] d2 by simp_all
  qed simp
  have q3: "fin ?q3 \<and> 100026671111732 / 10 ^ 18 \<le> val ?q3 \<and> val ?q3 \<le> 100026671111735 / 10 ^ 18"
  proof (rule rounded_between [where fin = fin and val = val and r = "?q3" and x = "val ?d3 * val ?d3"
        and l = "(10001333466679961 / 10 ^ 18) * (10001333466679961 / 10 ^ 18)" and h = "(10001333466680042 / 10 ^ 18) * (10001333466680042 / 10 ^ 18)"])
    show "correctly_rounded fin val (val ?d3 * val ?d3) ?q3"
      using d3 by (intro ieee_ops(3) [OF H]) simp_all
    show "(10001333466679961 / 10 ^ 18) * (10001333466679961 / 10 ^ 18) \<le> val ?d3 * val ?d3" and "val ?d3 * val ?d3 \<le> (10001333466680042 / 10 ^ 18) * (10001333466680042 / 10 ^ 18)"
      using square_between(1) [of "10001333466679961 / 10 ^ 18" "val ?d3" "10001333466680042 / 10 ^ 18"] d3 by simp_all
  qed simp
  have v0: "fin ?v0 \<and> 98016402744828 / 10 ^ 18 \<le> val ?v0 \<and> val ?v0 \<le> 98016402744831 / 10 ^ 18"
    using rounded_exact [OF ieee_ops(1) [OF H], of "dbl A 0" ?q1 ?q1] z q1 by simp
  have v1: "fin ?v1 \<and> 494092347417443 / 10 ^ 18 \<le> val ?v1 \<and> val ?v1 \<le> 494092347417455 / 10 ^ 18"
  proof (rule rounded_between [where fin = fin and val = val and r = "?v1" and x = "val ?v0 + val ?q2"
        and l = "494092347417444 / 10 ^ 18" and h = "494092347417454 / 10 ^ 18"])
    show "correctly_rounded fin val (val ?v0 + val ?q2) ?v1"
      using v0 q2 by (intro ieee_ops(1) [OF H]) simp_all
    show "494092347417444 / 10 ^ 18 \<le> val ?v0 + val ?q2" and "val ?v0 + val ?q2 \<le> 494092347417454 / 10 ^ 18"
      using v0 q2 by simp_all
  qed simp
  have v2: "fin ?v2 \<and> 594119018529174 / 10 ^ 18 \<le> val ?v2 \<and> val ?v2 \<le> 594119018529191 / 10 ^ 18"
  proof (rule rounded_between [where fin = fin and val = val and r = "?v2" and x = "val ?v1 + val ?q3"
        and l = "594119018529175 / 10 ^ 18" and h = "594119018529190 / 10 ^ 18"])
    show "correctly_rounded fin val (val ?v1 + val ?q3) ?v2"
      using v1 q3 by (intro ieee_ops(1) [OF H]) simp_all
    show "594119018529175 / 10 ^ 18 \<le> val ?v1 + val ?q3" and "val ?v1 + val ?q3 \<le> 594119018529190 / 10 ^ 18"
      using v1 q3 by simp_all
  qed simp
  have var: "fin ?var \<and> 198039672843057 / 10 ^ 18 \<le> val ?var \<and> val ?var \<le> 198039672843065 / 10 ^ 18"
  proof (rule rounded_between [where fin = fin and val = val and r = "?var" and x = "val ?v2 / val ?three"
        and l = "198039672843058 / 10 ^ 18" and h = "198039672843064 / 10 ^ 18"])
    show "correctly_rounded fin val (val ?v2 / val ?three) ?var"
      using v2 three by (intro ieee_ops(4) [OF H]) simp_all
    show "198039672843058 / 10 ^ 18 \<le> val ?v2 / val ?three" and "val ?v2 / val ?three \<le> 198039672843064 / 10 ^ 18"
      using v2 three by simp_all
  qed simp
  have vol: "fin ?vol \<and> 14072656920999985 / 10 ^ 18 \<le> val ?vol \<and> val ?vol \<le> 14072656922000015 / 10 ^ 18"
  proof (rule rounded_between [where fin = fin and val = val and r = "?vol" and x = "sqrt (val ?var)"
        and l = "14072656921 / 10 ^ 12" and h = "14072656922 / 10 ^ 12"])
    show "correctly_rounded fin val (sqrt (val ?var)) ?vol"
      using var by (intro ieee_sqrt [OF H]) simp_all
    show "14072656921 / 10 ^ 12 \<le> sqrt (val ?var)" and "sqrt (val ?var) \<le> 14072656922 / 10 ^ 12"
      using sqrt_between [of "198039672843057 / 10 ^ 18" "val ?var" "198039672843065 / 10 ^ 18" "14072656921 / 10 ^ 12" "14072656922 / 10 ^ 12"] var
      by simp_all
  qed simp
  have s252: "fin ?s252 \<and> 15874507866386984125 / 10 ^ 18 \<le> val ?s252 \<and> val ?s252 \<le> 15874507866388015875 / 10 ^ 18"
  proof (rule rounded_between [where fin = fin and val = val and r = "?s252" and x = "sqrt (val ?p252)"
        and l = "15874507866387 / 10 ^ 12" and h = "15874507866388 / 10 ^ 12"])
    show "correctly_rounded fin val (sqrt (val ?p252)) ?s252"
      using p252 by (intro ieee_sqrt [OF H]) simp_all
    show "15874507866387 / 10 ^ 12 \<le> sqrt (val ?p252)" and "sqrt (val ?p252) \<le> 15874507866388 / 10 ^ 12"
      using sqrt_between [of "252000000000000000000 / 10 ^ 18" "val ?p252" "252000000000000000000 / 10 ^ 18" "15874507866387 / 10 ^ 12" "15874507866388 / 10 ^ 12"] p252
      by simp_all
  qed simp
  have t: "fin ?t \<and> 223396502993379273 / 10 ^ 18 \<le> val ?t \<and> val ?t \<le> 223396503009269225 / 10 ^ 18"
  proof (rule rounded_between [where fin = fin and val = val and r = "?t" and x = "val ?vol * val ?s252"
        and l = "(14072656920999985 / 10 ^ 18) * (15874507866386984125 / 10 ^ 18)" and h = "(14072656922000015 / 10 ^ 18) * (15874507866388015875 / 10 ^ 18)"])
    show "correctly_rounded fin val (val ?vol * val ?s252) ?t"
      using vol s252 by (intro ieee_ops(3) [OF H]) simp_all
    show "(14072656920999985 / 10 ^ 18) * (15874507866386984125 / 10 ^ 18) \<le> val ?vol * val ?s252" and "val ?vol * val ?s252 \<le> (14072656922000015 / 10 ^ 18) * (15874507866388015875 / 10 ^ 18)"
      using product_between [of "14072656920999985 / 10 ^ 18" "val ?vol" "14072656922000015 / 10 ^ 18" "15874507866386984125 / 10 ^ 18" "val ?s252" "15874507866388015875 / 10 ^ 18"]
        vol s252 by simp_all
  qed simp
  have ann: "fin ?ann \<and> 22339650299337904960 / 10 ^ 18 \<le> val ?ann \<and> val ?ann \<le> 22339650300926944840 / 10 ^ 18"
  proof (rule rounded_between [where fin = fin and val = val and r = "?ann" and x = "val ?t * val ?p100"
        and l = "22339650299337927300 / 10 ^ 18" and h = "22339650300926922500 / 10 ^ 18"])
    show "correctly_rounded fin val (val ?t * val ?p100) ?ann"
      using t p100 by (intro ieee_ops(3) [OF H]) simp_all
    show "22339650299337927300 / 10 ^ 18 \<le> val ?t * val ?p100" and "val ?t * val ?p100 \<le> 22339650300926922500 / 10 ^ 18"
      using t p100 by simp_all
  qed simp
  have "spec_volatility A [?p100, ?p101, ?p99, ?p100] = ?ann"
    by (simp add: spec_volatility_def population_stddev_def spec_mean_def spec_sum_def
        spec_returns_def numeral_3_eq_3)
  then have calc: "VolatilityCalculator_calc A (priced A [100, 101, 99, 100]) =
      Some (?ann, classify A ?ann)"
    by (simp add: VolatilityCalculator_calc_spec priced_def PriceData_new_def)
  have "flt A ?ann (dbl A 15) = (val ?ann < 15)" and "flt A ?ann (dbl A 30) = (val ?ann < 30)"
    using ieee_flt [OF H, of ?ann] ann p15 p30 by simp_all
  then have "classify A ?ann = MODERATE"
    using ann by (simp add: classify_def)
  with calc ann show ?thesis by simp
qed

section \<open>Rolling mean\<close>

text \<open>
  Claim C7.  On a window of at least 2 samples the SMA consumer computes, in the doubles
  of the machine, the arithmetic mean of the prices (their sum from 0 in window order,
  divided by their number) and the deviation of the newest price from it,
  \<open>((newest - mean) / mean) * 100\<close>; a shorter window is skipped.  In every arithmetic
  that rounds correctly, the window \<open>[10, 20, 30]\<close> gives a mean of exactly 20 and a
  deviation of exactly 50.
\<close>

theorem sma_mean_and_deviation:
  "SMACalculator_calc A history =
     (if length history < 2 then None
      else Some (spec_mean A (map price history),
                 fmul A (fdiv A (fsub A (price (last history)) (spec_mean A (map price history)))
                           (spec_mean A (map price history))) (dbl A 100))) \<and>
   (ieee_double A fin val \<longrightarrow>
      (\<exists>m d. SMACalculator_calc A (priced A [10, 20, 30]) = Some (m, d) \<and>
         fin m \<and> val m = 20 \<and> fin d \<and> val d = 50))"
proof (intro conjI impI)
  show "SMACalculator_calc A history =
     (if length history < 2 then None
      else Some (spec_mean A (map price history),
                 fmul A (fdiv A (fsub A (price (last history)) (spec_mean A (map price history)))
                           (spec_mean A (map price history))) (dbl A 100)))"
    by (rule SMACalculator_calc_spec)
next
  assume "ieee_double A fin val"
  then show "\<exists>m d. SMACalculator_calc A (priced A [10, 20, 30]) = Some (m, d) \<and>
      fin m \<and> val m = 20 \<and> fin d \<and> val d = 50"
    by (rule sma_sample_ieee)
qed

theorem sma_mean_and_deviation_witness:
  "ieee_double real_ops (\<lambda>x. True) (\<lambda>x. x) \<and>
   SMACalculator_calc real_ops (priced real_ops [10, 20, 30]) = Some (20, 50)"
proof -
  from sma_mean_and_deviation [of real_ops "priced real_ops [10, 20, 30]" "\<lambda>x. True" "\<lambda>x. x"]
    ieee_real_ops
  obtain m d where "SMACalculator_calc real_ops (priced real_ops [10, 20, 30]) = Some (m, d)"
    and "m = 20" and "d = 50"
    by blast
  with ieee_real_ops show ?thesis by simp
qed

section \<open>Rolling volatility\<close>

text \<open>
  Claim C6 as the code has it.  On a window of at least 3 samples the volatility consumer
  computes, in the doubles of the machine, the per-step returns \<open>(v[i] - v[i-1]) / v[i-1]\<close>,
  their population standard deviation (the variance is the sum of the squared differences
  from the mean, divided by the number of returns), multiplies it by \<open>sqrt 252\<close> and by 100,
  and classifies the result: LOW when it is below 15, MODERATE when it is not below 15 and
  below 30, HIGH otherwise, which for a finite result means from 30; a shorter window is
  skipped.  In every arithmetic that rounds correctly, the window \<open>[100, 101, 99, 100]\<close>
  gives a finite result between 22 and 23 (about 22.34), which is MODERATE.
\<close>

theorem volatility_is_annualized_population_stddev:
  "VolatilityCalculator_calc A history =
     (if length history < 3 then None
      else Some (spec_volatility A (map price history),
                 classify A (spec_volatility A (map price history)))) \<and>
   classify A a =
     (if flt A a (dbl A 15) then LOW else if flt A a (dbl A 30) then MODERATE else HIGH) \<and>
   (ieee_double A fin val \<and> fin a \<longrightarrow>
      classify A a = (if val a < 15 then LOW else if val a < 30 then MODERATE else HIGH)) \<and>
   (ieee_double A fin val \<longrightarrow>
      (\<exists>v. VolatilityCalculator_calc A (priced A [100, 101, 99, 100]) = Some (v, MODERATE) \<and>
         fin v \<and> 22 < val v \<and> val v < 23))"
proof (intro conjI impI)
  show "VolatilityCalculator_calc A history =
     (if length history < 3 then None
      else Some (spec_volatility A (map price history),
                 classify A (spec_volatility A (map price history))))"
    by (rule VolatilityCalculator_calc_spec)
next
  show "classify A a =
     (if flt A a (dbl A 15) then LOW else if flt A a (dbl A 30) then MODERATE else HIGH)"
    by (simp add: classify_def)
next
  assume H: "ieee_double A fin val \<and> fin a"
  then have "fin (dbl A 15) \<and> val (dbl A 15) = 15" and "fin (dbl A 30) \<and> val (dbl A 30) = 30"
    using ieee_dbl_int [of A fin val 15] ieee_dbl_int [of A fin val 30] by simp_all
  with H have "flt A a (dbl A 15) = (val a < 15)" and "flt A a (dbl A 30) = (val a < 30)"
    using ieee_flt [of A fin val a] by simp_all
  then show "classify A a = (if val a < 15 then LOW else if val a < 30 then MODERATE else HIGH)"
    by (simp add: classify_def)
next
  assume "ieee_double A fin val"
  then show "\<exists>v. VolatilityCalculator_calc A (priced A [100, 101, 99, 100]) = Some (v, MODERATE) \<and>
      fin v \<and> 22 < val v \<and> val v < 23"
    by (rule volatility_sample_ieee)
qed

theorem volatility_is_annualized_population_stddev_witness:
  "ieee_double real_ops (\<lambda>x. True) (\<lambda>x. x) \<and>
   classify real_ops 20 = MODERATE \<and>
   (\<exists>v. VolatilityCalculator_calc real_ops (priced real_ops [100, 101, 99, 100]) =
      Some (v, MODERATE) \<and> 22 < v \<and> v < 23)"
proof -
  note t = volatility_is_annualized_population_stddev
    [of real_ops "priced real_ops [100, 101, 99, 100]" 20 "\<lambda>x. True" "\<lambda>x. x"]
  from t ieee_real_ops
  have "classify real_ops 20 =
      (if (20 :: real) < 15 then LOW else if (20 :: real) < 30 then MODERATE else HIGH)"
    by blast
  then have "classify real_ops 20 = MODERATE"
    by simp
  moreover from t ieee_real_ops
  have "\<exists>v. VolatilityCalculator_calc real_ops (priced real_ops [100, 101, 99, 100]) =
      Some (v, MODERATE) \<and> 22 < v \<and> v < 23"
    by blast
  ultimately show ?thesis using ieee_real_ops by simp
qed

text \<open>
  The value for that window is not near 30.  In exact arithmetic it is below 23, and no
  arithmetic that rounds correctly gives a finite result of 30 or more.
\<close>

theorem volatility_sample_below_23:
  "VolatilityCalculator_calc real_ops (priced real_ops [100, 101, 99, 100]) \<noteq> None \<and>
   fst (the (VolatilityCalculator_calc real_ops (priced real_ops [100, 101, 99, 100]))) < 23 \<and>
   \<not> (\<exists>(A :: 'd double_ops) fin val v l. ieee_double A fin val \<and>
        VolatilityCalculator_calc A (priced A [100, 101, 99, 100]) = Some (v, l) \<and>
        30 \<le> val v)"
proof -
  from volatility_sample_ieee [OF ieee_real_ops]
  obtain v where "VolatilityCalculator_calc real_ops (priced real_ops [100, 101, 99, 100]) =
      Some (v, MODERATE)" and "v < 23"
    by blast
  then have exact: "VolatilityCalculator_calc real_ops (priced real_ops [100, 101, 99, 100]) \<noteq> None \<and>
      fst (the (VolatilityCalculator_calc real_ops (priced real_ops [100, 101, 99, 100]))) < 23"
    by simp
  have none: "\<not> (\<exists>(A :: 'd double_ops) fin val v l. ieee_double A fin val \<and>
        VolatilityCalculator_calc A (priced A [100, 101, 99, 100]) = Some (v, l) \<and>
        30 \<le> val v)"
  proof
    assume "\<exists>(A :: 'd double_ops) fin val v l. ieee_double A fin val \<and>
        VolatilityCalculator_calc A (priced A [100, 101, 99, 100]) = Some (v, l) \<and>
        30 \<le> val v"
    then obtain A :: "'d double_ops" and fin val v l where h: "ieee_double A fin val"
      and c: "VolatilityCalculator_calc A (priced A [100, 101, 99, 100]) = Some (v, l)"
      and g: "30 \<le> val v"
      by blast
    from volatility_sample_ieee [OF h] c have "val v < 23" by auto
    with g show False by simp
  qed
  from exact none show ?thesis by (intro conjI) simp_all
qed


end
